theory Spec2Isabelle
  imports Main "HOL-Library.Word"
begin

unbundle bit_operations_syntax

section \<open>Number literal grammar (parseNumber)\<close>

subsection \<open>The byte classification table\<close>

text \<open>
  The flag constants are \<open>1 << iota\<close> for \<open>iota = 0 .. 5\<close>; the table
  \<open>isNumberRune\<close> is a 256-entry array of \<open>uint8\<close>, zero wherever the array
  literal names no byte. Go's \<open>byte\<close> is an 8-bit \<open>char\<close> here.
\<close>

definition isPartOfNumberFlag :: "8 word" where "isPartOfNumberFlag = 1"
definition isFloatOnlyFlag :: "8 word" where "isFloatOnlyFlag = 2"
definition isMinusFlag :: "8 word" where "isMinusFlag = 4"
definition isEOVFlag :: "8 word" where "isEOVFlag = 8"
definition isDigitFlag :: "8 word" where "isDigitFlag = 16"
definition isMustHaveDigitNext :: "8 word" where "isMustHaveDigitNext = 32"

definition isNumberRuneTable :: "(char \<times> 8 word) list" where
  "isNumberRuneTable =
    [(CHR ''0'', isPartOfNumberFlag OR isDigitFlag),
     (CHR ''1'', isPartOfNumberFlag OR isDigitFlag),
     (CHR ''2'', isPartOfNumberFlag OR isDigitFlag),
     (CHR ''3'', isPartOfNumberFlag OR isDigitFlag),
     (CHR ''4'', isPartOfNumberFlag OR isDigitFlag),
     (CHR ''5'', isPartOfNumberFlag OR isDigitFlag),
     (CHR ''6'', isPartOfNumberFlag OR isDigitFlag),
     (CHR ''7'', isPartOfNumberFlag OR isDigitFlag),
     (CHR ''8'', isPartOfNumberFlag OR isDigitFlag),
     (CHR ''9'', isPartOfNumberFlag OR isDigitFlag),
     (CHR ''.'', isPartOfNumberFlag OR isFloatOnlyFlag OR isMustHaveDigitNext),
     (CHR ''+'', isPartOfNumberFlag),
     (CHR ''-'', isPartOfNumberFlag OR isMinusFlag OR isMustHaveDigitNext),
     (CHR ''e'', isPartOfNumberFlag OR isFloatOnlyFlag),
     (CHR ''E'', isPartOfNumberFlag OR isFloatOnlyFlag),
     (CHR '','', isEOVFlag),
     (CHR ''}'', isEOVFlag),
     (CHR '']'', isEOVFlag),
     (CHR '' '', isEOVFlag),
     (CHR 0x09, isEOVFlag),
     (CHR 0x0D, isEOVFlag),
     (CHR 0x0A, isEOVFlag),
     (CHR '':'', isEOVFlag)]"

definition isNumberRune :: "char \<Rightarrow> 8 word" where
  "isNumberRune v = (case map_of isNumberRuneTable v of None \<Rightarrow> 0 | Some t \<Rightarrow> t)"

subsection \<open>The scanning loop\<close>

text \<open>
  \<open>for i, v := range buf\<close>: the loop is a recursion on the bytes not yet visited, with
  the index \<open>i\<close> carried along. At index \<open>i\<close> the remaining bytes \<open>rest\<close> are
  \<open>buf[i+1:]\<close>, so \<open>len(buf) < i+2\<close> is \<open>rest = []\<close> and \<open>buf[i+1]\<close> is
  \<open>hd rest\<close>. \<open>None\<close> is an early \<open>return 0, 0\<close> from inside the loop; \<open>Some\<close> is
  the state \<open>(found, pos)\<close> on leaving the loop (by \<open>break\<close> or at the end of \<open>buf\<close>).
\<close>

fun scanNumber :: "string \<Rightarrow> nat \<Rightarrow> 8 word \<Rightarrow> nat \<Rightarrow> (8 word \<times> nat) option" where
  "scanNumber [] i found pos = Some (found, pos)"
| "scanNumber (v # rest) i found pos =
    (let t = isNumberRune v in
     if t = 0 then None
     else if t = isEOVFlag then Some (found, pos)
     else if t AND isMustHaveDigitNext > 0 \<and>
             (rest = [] \<or> isNumberRune (hd rest) AND isDigitFlag = 0) then None
     else scanNumber rest (i + 1) (found OR t) (i + 1))"

subsection \<open>The conversions of Go's standard library\<close>

text \<open>
  \<open>strconv.ParseInt\<close>, \<open>strconv.ParseUint\<close> and \<open>strconv.ParseFloat\<close> belong to the Go
  standard library, not to the repository. They are modelled after the library's published
  source, at the arguments parseNumber uses (base 10, 64 bits). parseNumber looks at the
  error only through \<open>err == nil\<close> and \<open>errors.Is(err, strconv.ErrRange)\<close>, so an outcome
  is a value, a syntax error or a range error.
\<close>

datatype 'a conv = Ok 'a | ErrSyntax | ErrRange

definition isDecDigit :: "char \<Rightarrow> bool" where
  "isDecDigit c \<longleftrightarrow> (48::nat) \<le> of_char c \<and> of_char c \<le> (57::nat)"

definition digitVal :: "char \<Rightarrow> nat" where
  "digitVal c = of_char c - 48"

text \<open>
  ParseUint's loop over the bytes of \<open>s\<close>, on \<open>uint64\<close> with its own overflow tests:
  \<open>cutoff = maxUint64/10 + 1\<close>, \<open>maxVal = 1<<64 - 1\<close>. In base 10 every byte other than
  a decimal digit is a syntax error (a letter is a digit value of at least 10). A range
  error is returned as soon as it is met, before the bytes behind it are looked at.
\<close>

definition uintCutoff :: "64 word" where
  "uintCutoff = 1844674407370955162"

definition uintMaxVal :: "64 word" where
  "uintMaxVal = 18446744073709551615"

fun parseUintLoop :: "string \<Rightarrow> 64 word \<Rightarrow> (64 word) conv" where
  "parseUintLoop [] n = Ok n"
| "parseUintLoop (c # cs) n =
    (if \<not> isDecDigit c then ErrSyntax
     else if n \<ge> uintCutoff then ErrRange
     else (let n10 = n * 10; n1 = n10 + word_of_nat (digitVal c) in
           if n1 < n10 \<or> n1 > uintMaxVal then ErrRange
           else parseUintLoop cs n1))"

definition ParseUint :: "string \<Rightarrow> (64 word) conv" where
  "ParseUint s = (if s = [] then ErrSyntax else parseUintLoop s 0)"

text \<open>
  ParseInt picks off one leading sign, converts the rest with ParseUint and checks the
  signed range against \<open>cutoff = 1 << 63\<close>. After a range error of ParseUint the value
  is \<open>maxVal\<close>, which fails the range check as well. The result is the \<open>int64\<close> as its
  two's-complement bit pattern (\<open>uint64(i64)\<close> in parseNumber).
\<close>

definition intCutoff :: "64 word" where
  "intCutoff = 9223372036854775808"

definition ParseInt :: "string \<Rightarrow> (64 word) conv" where
  "ParseInt s =
    (if s = [] then ErrSyntax
     else
       let neg = (hd s = CHR ''-'');
           s1 = (if hd s = CHR ''+'' \<or> hd s = CHR ''-'' then tl s else s)
       in case ParseUint s1 of
            ErrSyntax \<Rightarrow> ErrSyntax
          | r \<Rightarrow>
             (let un = (case r of Ok n \<Rightarrow> n | _ \<Rightarrow> uintMaxVal) in
              if \<not> neg \<and> un \<ge> intCutoff then ErrRange
              else if neg \<and> un > intCutoff then ErrRange
              else Ok (if neg then - un else un)))"


text \<open>
  ParseFloat, on the bytes parseNumber can hand to it: decimal digits, \<open>.\<close>, \<open>+\<close>,
  \<open>-\<close>, \<open>e\<close> and \<open>E\<close> (every other byte ends the scan or fails it before; on such
  bytes the library has further forms, hexadecimal and \<open>inf\<close>/\<open>nan\<close>, that this model
  leaves out and treats as a syntax error). The library's \<open>readFloat\<close> reads an optional
  sign, a run of digits with at most one point (leading zeros are not counted as digits but
  move the decimal point) and an optional exponent, whose value stops growing once it
  has reached 10000. The library keeps the first 19 digits and a truncation mark and
  falls back to the full digit string where they do not decide the rounding; the model keeps
  every digit in \<open>m\<close>, so the token denotes \<open>m * 10 ^ e\<close> with \<open>e = dp - nd\<close>.
\<close>

fun readMantissa ::
  "string \<Rightarrow> bool \<Rightarrow> bool \<Rightarrow> nat \<Rightarrow> int \<Rightarrow> nat \<Rightarrow> string \<times> bool \<times> bool \<times> nat \<times> int \<times> nat" where
  "readMantissa [] sawdot sawdigits nd dp m = ([], sawdot, sawdigits, nd, dp, m)"
| "readMantissa (c # cs) sawdot sawdigits nd dp m =
    (if c = CHR ''.'' then
       (if sawdot then (c # cs, sawdot, sawdigits, nd, dp, m)
        else readMantissa cs True sawdigits nd (int nd) m)
     else if isDecDigit c then
       (if c = CHR ''0'' \<and> nd = 0 then readMantissa cs sawdot True nd (dp - 1) m
        else readMantissa cs sawdot True (nd + 1) dp (m * 10 + digitVal c))
     else (c # cs, sawdot, sawdigits, nd, dp, m))"

fun readExpDigits :: "string \<Rightarrow> nat \<Rightarrow> string \<times> nat" where
  "readExpDigits [] e = ([], e)"
| "readExpDigits (c # cs) e =
    (if isDecDigit c then readExpDigits cs (if e < 10000 then e * 10 + digitVal c else e)
     else (c # cs, e))"

text \<open>
  \<open>readFloat s = Some (neg, m, e, rest)\<close>: the sign, the digits, the decimal exponent and
  the bytes left over; \<open>None\<close> when no number was read.
\<close>

definition readFloat :: "string \<Rightarrow> (bool \<times> nat \<times> int \<times> string) option" where
  "readFloat s =
    (if s = [] then None
     else
       let neg = (hd s = CHR ''-'');
           s1 = (if hd s = CHR ''+'' \<or> hd s = CHR ''-'' then tl s else s)
       in case readMantissa s1 False False 0 0 0 of
            (s2, sawdot, sawdigits, nd, dp, m) \<Rightarrow>
              if \<not> sawdigits then None
              else
                let dp1 = (if sawdot then dp else int nd) in
                if s2 \<noteq> [] \<and> (hd s2 = CHR ''e'' \<or> hd s2 = CHR ''E'') then
                  (let s3 = tl s2 in
                   if s3 = [] then None
                   else
                     let esign = (if hd s3 = CHR ''-'' then - 1 else (1::int));
                         s4 = (if hd s3 = CHR ''+'' \<or> hd s3 = CHR ''-'' then tl s3 else s3)
                     in if s4 = [] \<or> \<not> isDecDigit (hd s4) then None
                        else case readExpDigits s4 0 of
                               (s5, e) \<Rightarrow>
                                 Some (neg, m,
                                       (if m \<noteq> 0 then dp1 + int e * esign - int nd else 0), s5))
                else Some (neg, m, (if m \<noteq> 0 then dp1 - int nd else 0), s2))"

text \<open>
  The conversion to binary64 is the library's contract: the nearest floating-point number,
  ties to even, and a range error when the rounded magnitude is beyond the largest finite
  number. \<open>float64Magnitude m e\<close> is the bit pattern of the rounded \<open>m * 10 ^ e\<close> without
  the sign bit: with \<open>k\<close> the binary exponent (at least \<open>-1022\<close>, where the subnormal
  numbers begin) and \<open>q\<close> the value scaled to 52 fraction bits and rounded, the pattern is
  \<open>(k + 1022) * 2 ^ 52 + q\<close>; a \<open>q\<close> that reaches \<open>2 ^ 53\<close> carries into the exponent.
\<close>

fun bitlen :: "nat \<Rightarrow> nat" where
  "bitlen n = (if n = 0 then 0 else Suc (bitlen (n div 2)))"

declare bitlen.simps [simp del]

definition floorLog2 :: "nat \<Rightarrow> nat \<Rightarrow> int" where
  "floorLog2 num den =
    (let k0 = int (bitlen num) - int (bitlen den) in
     if (if k0 \<ge> 0 then num \<ge> den * 2 ^ nat k0 else num * 2 ^ nat (- k0) \<ge> den)
     then k0 else k0 - 1)"

definition roundHalfEven :: "nat \<Rightarrow> nat \<Rightarrow> nat" where
  "roundHalfEven a b =
    (let q = a div b; r = a mod b in
     if 2 * r > b \<or> (2 * r = b \<and> odd q) then q + 1 else q)"

definition float64Magnitude :: "nat \<Rightarrow> int \<Rightarrow> nat" where
  "float64Magnitude m e =
    (if m = 0 then 0
     else
       let num = (if e \<ge> 0 then m * 10 ^ nat e else m);
           den = (if e \<ge> 0 then 1 else 10 ^ nat (- e));
           k = max (floorLog2 num den) (- 1022);
           sh = 52 - k;
           q = (if sh \<ge> 0 then roundHalfEven (num * 2 ^ nat sh) den
                else roundHalfEven num (den * 2 ^ nat (- sh)))
       in nat (k + 1022) * 2 ^ 52 + q)"

definition float64Inf :: nat where
  "float64Inf = 0x7FF0000000000000"

definition ParseFloat :: "string \<Rightarrow> (64 word) option" where
  "ParseFloat s =
    (case readFloat s of
       None \<Rightarrow> None
     | Some (neg, m, e, rest) \<Rightarrow>
         if rest \<noteq> [] then None
         else
           let b = float64Magnitude m e in
           if b \<ge> float64Inf then None
           else Some ((if neg then push_bit 63 1 else 0) OR word_of_nat b))"

subsection \<open>parseNumber\<close>

text \<open>
  The tag constants \<open>TagInteger\<close>, \<open>TagUint\<close>, \<open>TagFloat\<close>, the shift
  \<open>JSONTAGOFFSET\<close> and the flag \<open>FloatOverflowedInteger\<close> are declared in a file of the
  package that is not among the sources; parseNumber takes them as parameters, each already
  converted by \<open>uint64(...)\<close> as parseNumber does before using it.
\<close>

record tagConsts =
  TagInteger :: "64 word"
  TagUint :: "64 word"
  TagFloat :: "64 word"
  JSONTAGOFFSET :: nat
  FloatOverflowedInteger :: "64 word"

definition maxIntLen :: nat where
  "maxIntLen = 20"

text \<open>
  The last part of parseNumber (from the float's leading-zero test to the end), which every
  path that did not return reaches with its own \<open>floatTag\<close>.
\<close>

definition parseNumberFloat :: "string \<Rightarrow> nat \<Rightarrow> 64 word \<Rightarrow> 64 word \<times> 64 word" where
  "parseNumberFloat buf pos floatTag =
    (if pos > 1 \<and> buf ! 0 = CHR ''0'' \<and> isNumberRune (buf ! 1) AND isFloatOnlyFlag = 0
     then (0, 0)
     else case ParseFloat (take pos buf) of
            Some bits \<Rightarrow> (floatTag, bits)
          | None \<Rightarrow> (0, 0))"

definition parseNumber :: "tagConsts \<Rightarrow> string \<Rightarrow> 64 word \<times> 64 word" where
  "parseNumber K buf =
    (case scanNumber buf 0 0 0 of
       None \<Rightarrow> (0, 0)
     | Some (found, pos) \<Rightarrow>
         if pos = 0 then (0, 0)
         else
           let floatTag = push_bit (JSONTAGOFFSET K) (TagFloat K) in
           if found AND isFloatOnlyFlag = 0 \<and> pos \<le> maxIntLen then
             (if (if found AND isMinusFlag = 0 then pos > 1 \<and> buf ! 0 = CHR ''0''
                  else pos > 2 \<and> buf ! 1 = CHR ''0'')
              then (0, 0)
              else
                case ParseInt (take pos buf) of
                  Ok i64 \<Rightarrow> (push_bit (JSONTAGOFFSET K) (TagInteger K), i64)
                | err \<Rightarrow>
                    (let floatTag1 =
                       (if err = ErrRange then floatTag OR FloatOverflowedInteger K
                        else floatTag)
                     in if found AND isMinusFlag = 0 then
                          (case ParseUint (take pos buf) of
                             Ok u64 \<Rightarrow> (push_bit (JSONTAGOFFSET K) (TagUint K), u64)
                           | err2 \<Rightarrow>
                               parseNumberFloat buf pos
                                 (if err2 = ErrRange then floatTag1 OR FloatOverflowedInteger K
                                  else floatTag1))
                        else parseNumberFloat buf pos floatTag1))
           else parseNumberFloat buf pos
                  (if found AND isFloatOnlyFlag = 0 then floatTag OR FloatOverflowedInteger K
                   else floatTag))"


subsection \<open>JSON numbers and the reference decoder\<close>

text \<open>
  The number grammar of JSON, by its parts: an optional minus sign, an integer part (a
  single \<open>0\<close>, or digits that do not start with \<open>0\<close>), an optional fraction (a point and
  at least one digit; \<open>fracPart\<close> is empty when there is none) and an optional exponent
  (\<open>e\<close> or \<open>E\<close>, an optional sign and at least one digit; \<open>expMark\<close> is empty when there
  is none). \<open>numberText\<close> is the text of the number.
\<close>

record jsonNumber =
  negative :: bool
  intPart :: string
  fracPart :: string
  expMark :: string
  expDigits :: string

definition wellFormed :: "jsonNumber \<Rightarrow> bool" where
  "wellFormed j \<longleftrightarrow>
     intPart j \<noteq> [] \<and> list_all isDecDigit (intPart j) \<and>
     (intPart j = ''0'' \<or> hd (intPart j) \<noteq> CHR ''0'') \<and>
     list_all isDecDigit (fracPart j) \<and> list_all isDecDigit (expDigits j) \<and>
     (if expMark j = [] then expDigits j = []
      else expMark j \<in> set [''e'', ''E'', ''e+'', ''E+'', ''e-'', ''E-''] \<and> expDigits j \<noteq> [])"

definition numberText :: "jsonNumber \<Rightarrow> string" where
  "numberText j =
     (if negative j then ''-'' else []) @ intPart j @
     (if fracPart j = [] then [] else CHR ''.'' # fracPart j) @ expMark j @ expDigits j"

text \<open>The bytes that end a value: comma, closing bracket and brace, whitespace, colon.\<close>

definition isEndOfValue :: "char \<Rightarrow> bool" where
  "isEndOfValue c \<longleftrightarrow>
     c \<in> set [CHR '','', CHR '']'', CHR ''}'', CHR '' '', CHR 0x09, CHR 0x0D, CHR 0x0A, CHR '':'']"

text \<open>
  The reference decoder reads the number by its value. The digits \<open>ds\<close> denote
  \<open>decimalValue ds\<close>. A number without fraction and exponent is an Integer when its value
  is an \<open>int64\<close> (payload: the two's-complement pattern), a Uint when it is a larger
  \<open>uint64\<close>, and otherwise a Float that carries the overflowed-integer flag. Every other
  number is a Float; with \<open>m\<close> the digits of integer part and fraction and \<open>x\<close> the
  exponent, its value is \<open>m * 10 ^ (x - length of the fraction)\<close>.
\<close>

fun decimalAcc :: "nat \<Rightarrow> string \<Rightarrow> nat" where
  "decimalAcc n [] = n"
| "decimalAcc n (c # cs) = decimalAcc (n * 10 + digitVal c) cs"

definition decimalValue :: "string \<Rightarrow> nat" where
  "decimalValue ds = decimalAcc 0 ds"

definition exponentValue :: "jsonNumber \<Rightarrow> int" where
  "exponentValue j =
     (if CHR ''-'' \<in> set (expMark j) then - int (decimalValue (expDigits j))
      else int (decimalValue (expDigits j)))"

text \<open>
  The payload of a Float is stated against binary64 itself, not against a conversion
  procedure. A bit pattern \<open>b\<close> below \<open>float64Inf\<close> (sign bit left out) is a finite
  number: with \<open>E = b div 2 ^ 52\<close> the exponent field and \<open>f = b mod 2 ^ 52\<close> the
  fraction field its value is \<open>f * 2 ^ (- 1074)\<close> when \<open>E = 0\<close> (zero and the
  subnormal numbers) and \<open>(2 ^ 52 + f) * 2 ^ (E - 1075)\<close> otherwise.
  \<open>float64Scaled b\<close> is that value times \<open>2 ^ 1074\<close>, a natural number.

  The decimal value \<open>m * 10 ^ e\<close> is the fraction \<open>num / den\<close> of
  \<open>decimalRatio m e\<close>. \<open>binary64Distance num den b\<close> is the distance between the
  value of \<open>b\<close> and \<open>num / den\<close>, in units of \<open>1 / (den * 2 ^ 1074)\<close>.
  \<open>nearestBinary64 num den b\<close>: \<open>b\<close> is the finite binary64 nearest to
  \<open>num / den\<close>, the one with the even fraction field when two are equally near.
  \<open>beyondBinary64 num den\<close>: \<open>num / den\<close> is at least half-way from the largest
  finite number to \<open>2 ^ 1024\<close>, where rounding to nearest leaves the finite numbers;
  such a value has no Float, and the decoder answers \<open>(0, 0)\<close>.
\<close>

definition float64Scaled :: "nat \<Rightarrow> nat" where
  "float64Scaled b =
    (let E = b div 2 ^ 52; f = b mod 2 ^ 52 in
     if E = 0 then f else (2 ^ 52 + f) * 2 ^ (E - 1))"

definition decimalRatio :: "nat \<Rightarrow> int \<Rightarrow> nat \<times> nat" where
  "decimalRatio m e = (if e \<ge> 0 then (m * 10 ^ nat e, 1) else (m, 10 ^ nat (- e)))"

definition binary64Distance :: "nat \<Rightarrow> nat \<Rightarrow> nat \<Rightarrow> int" where
  "binary64Distance num den b = \<bar>int (float64Scaled b * den) - int (num * 2 ^ 1074)\<bar>"

definition nearestBinary64 :: "nat \<Rightarrow> nat \<Rightarrow> nat \<Rightarrow> bool" where
  "nearestBinary64 num den b \<longleftrightarrow>
     b < float64Inf \<and>
     (\<forall>b' < float64Inf. binary64Distance num den b \<le> binary64Distance num den b') \<and>
     (\<forall>b' < float64Inf. b' \<noteq> b \<and> binary64Distance num den b' = binary64Distance num den b
        \<longrightarrow> even b)"

definition beyondBinary64 :: "nat \<Rightarrow> nat \<Rightarrow> bool" where
  "beyondBinary64 num den \<longleftrightarrow>
     den * (float64Scaled (float64Inf - 1) + float64Scaled float64Inf) \<le> 2 * (num * 2 ^ 1074)"

text \<open>
  The decoder is a relation between the number and a pair \<open>r\<close> of tag and payload:
  \<open>referenceDecode K j r\<close> says that \<open>r\<close> is what the decoder answers for \<open>j\<close>.
  There is one nearest binary64, so the relation has one answer for every number.
\<close>

definition referenceFloat :: "64 word \<Rightarrow> bool \<Rightarrow> nat \<Rightarrow> int \<Rightarrow> 64 word \<times> 64 word \<Rightarrow> bool" where
  "referenceFloat tag neg m e r \<longleftrightarrow>
     (case decimalRatio m e of
        (num, den) \<Rightarrow>
          if beyondBinary64 num den then r = (0, 0)
          else \<exists>b. nearestBinary64 num den b \<and>
                 r = (tag, (if neg then push_bit 63 1 else 0) OR word_of_nat b))"

definition referenceDecode :: "tagConsts \<Rightarrow> jsonNumber \<Rightarrow> 64 word \<times> 64 word \<Rightarrow> bool" where
  "referenceDecode K j r \<longleftrightarrow>
     (let n = decimalValue (intPart j);
          floatTag = push_bit (JSONTAGOFFSET K) (TagFloat K)
      in if fracPart j = [] \<and> expMark j = [] then
           (if \<not> negative j \<and> n < 2 ^ 63 then
              r = (push_bit (JSONTAGOFFSET K) (TagInteger K), word_of_nat n)
            else if negative j \<and> n \<le> 2 ^ 63 then
              r = (push_bit (JSONTAGOFFSET K) (TagInteger K), - word_of_nat n)
            else if \<not> negative j \<and> n < 2 ^ 64 then
              r = (push_bit (JSONTAGOFFSET K) (TagUint K), word_of_nat n)
            else referenceFloat (floatTag OR FloatOverflowedInteger K) (negative j) n 0 r)
         else
           referenceFloat floatTag (negative j) (decimalValue (intPart j @ fracPart j))
             (exponentValue j - int (length (fracPart j))) r)"

section \<open>Parse orchestration\<close>

subsection \<open>Slices, results and errors\<close>

text \<open>
  A Go slice is a view on a backing array: which array, how many elements are in use and
  how many the array holds. \<open>make\<close> (here \<open>makeSlice\<close>) returns a view on a new
  array; arrays are numbered from an allocation counter that is passed along, so that a
  truncated buffer and a new one are different values. The nil slice has capacity 0.
\<close>

record slice =
  array :: nat
  len :: nat
  cap :: nat

definition nilSlice :: slice where
  "nilSlice = \<lparr>array = 0, len = 0, cap = 0\<rparr>"

definition makeSlice :: "nat \<Rightarrow> nat \<Rightarrow> slice \<times> nat" where
  "makeSlice n heap = (\<lparr>array = heap, len = 0, cap = n\<rparr>, Suc heap)"

text \<open>
  Errors are values: \<open>errors.New\<close> and a \<open>fmt.Errorf\<close> without verbs carry their
  message, \<open>fmt.Errorf("...: %w", err)\<close> wraps an error behind a prefix, \<open>io.EOF\<close> is
  the end of a source, and a source may fail with an error of its own.
\<close>

datatype error = New string | Wrap string error | EOF | SourceError nat

text \<open>
  An entry of the index stream; only its \<open>index\<close> field is read here (\<open>-1\<close> ends a
  stream). The channel \<open>indexChans\<close> is its capacity and the entries waiting in it.
\<close>

record indexChan =
  index :: int

record indexChannel =
  chanCap :: nat
  queue :: "indexChan list"

text \<open>
  \<open>internalParsedJson\<close> embeds \<open>ParsedJson\<close>. \<open>Strings\<close> is a pointer to a
  \<open>TStrings\<close>, which holds the one slice \<open>B\<close>; \<open>None\<close> is the nil pointer.
\<close>

record ParsedJson =
  Message :: string
  Tape :: slice
  Strings :: "slice option"

record internalParsedJson = ParsedJson +
  containingScopeOffset :: slice
  indexesChan :: indexChan
  indexChans :: "indexChannel option"
  ndjson :: "64 word"
  buffersOffset :: "64 word"
  copyStrings :: bool

definition zeroInternalParsedJson :: internalParsedJson where
  "zeroInternalParsedJson =
    \<lparr>Message = [], Tape = nilSlice, Strings = None,
     containingScopeOffset = nilSlice, indexesChan = \<lparr>index = 0\<rparr>, indexChans = None,
     ndjson = 0, buffersOffset = 0, copyStrings = False\<rparr>"

text \<open>
  What the orchestrator takes from outside the sources: the answer of \<open>SupportedCPU()\<close>,
  the constants \<open>maxdepth\<close> and \<open>indexSlots\<close>, and the two stages. Stage 1
  (\<open>findStructuralIndices\<close>) and stage 2 (\<open>unifiedMachine\<close>, which also reports whether
  it has consumed the stream to its end) work on the parse state and hand it back.
\<close>

record host =
  SupportedCPU :: bool
  maxdepth :: nat
  indexSlots :: nat
  findStructuralIndices :: "internalParsedJson \<Rightarrow> bool \<times> internalParsedJson"
  unifiedMachine :: "internalParsedJson \<Rightarrow> (bool \<times> bool) \<times> internalParsedJson"

subsection \<open>initialize\<close>

text \<open>
  Sizes are Go \<open>int\<close>s computed from the length of a byte slice in memory, far below the
  range where \<open>size * 15\<close> could wrap; they are natural numbers here, and Go's division
  of non-negative integers is \<open>div\<close>. The parameter \<open>size\<close> is \<open>n\<close>.
\<close>

definition initialize :: "host \<Rightarrow> nat \<Rightarrow> nat \<times> internalParsedJson \<Rightarrow> nat \<times> internalParsedJson" where
  "initialize H n st =
    (case st of (heap, pj) \<Rightarrow>
      let avgTapeSize = n * 15 div 100;
          (tape, heap1) = (if cap (Tape pj) < avgTapeSize then makeSlice avgTapeSize heap
                           else (Tape pj, heap));
          stringsSize = (if n div 10 < 128 then 128 else n div 10);
          (strings, heap2) =
            (case Strings pj of
               Some B \<Rightarrow> (if cap B \<ge> stringsSize then (B\<lparr>len := 0\<rparr>, heap1)
                          else makeSlice stringsSize heap1)
             | None \<Rightarrow> makeSlice stringsSize heap1);
          (scopes, heap3) =
            (if cap (containingScopeOffset pj) < maxdepth H then makeSlice (maxdepth H) heap2
             else (containingScopeOffset pj, heap2))
      in (heap3,
          pj\<lparr>Tape := tape\<lparr>len := 0\<rparr>, Strings := Some strings,
             containingScopeOffset := scopes\<lparr>len := 0\<rparr>,
             indexesChan := \<lparr>index = 0\<rparr>\<rparr>))"

subsection \<open>bytes.TrimSpace\<close>

text \<open>
  \<open>bytes.TrimSpace\<close> is the Go standard library's: it cuts, from both ends, every code
  point that \<open>unicode.IsSpace\<close> accepts, reading the bytes as UTF-8. These are the six
  ASCII bytes of the library's \<open>asciiSpace\<close> table and the code points U+0085, U+00A0,
  U+1680, U+2000 to U+200A, U+2028, U+2029, U+202F, U+205F and U+3000, listed here by their
  encodings. A byte that starts no valid encoding decodes to U+FFFD, which is no space, and
  stops the trimming.
\<close>

definition asciiSpace :: "char list" where
  "asciiSpace = [CHR 0x09, CHR 0x0A, CHR 0x0B, CHR 0x0C, CHR 0x0D, CHR 0x20]"

definition unicodeSpace :: "string list" where
  "unicodeSpace =
    [[CHR 0xC2, CHR 0x85], [CHR 0xC2, CHR 0xA0], [CHR 0xE1, CHR 0x9A, CHR 0x80],
     [CHR 0xE2, CHR 0x80, CHR 0x80], [CHR 0xE2, CHR 0x80, CHR 0x81],
     [CHR 0xE2, CHR 0x80, CHR 0x82], [CHR 0xE2, CHR 0x80, CHR 0x83],
     [CHR 0xE2, CHR 0x80, CHR 0x84], [CHR 0xE2, CHR 0x80, CHR 0x85],
     [CHR 0xE2, CHR 0x80, CHR 0x86], [CHR 0xE2, CHR 0x80, CHR 0x87],
     [CHR 0xE2, CHR 0x80, CHR 0x88], [CHR 0xE2, CHR 0x80, CHR 0x89],
     [CHR 0xE2, CHR 0x80, CHR 0x8A], [CHR 0xE2, CHR 0x80, CHR 0xA8],
     [CHR 0xE2, CHR 0x80, CHR 0xA9], [CHR 0xE2, CHR 0x80, CHR 0xAF],
     [CHR 0xE2, CHR 0x81, CHR 0x9F], [CHR 0xE3, CHR 0x80, CHR 0x80]]"

definition spaceRunes :: "string list" where
  "spaceRunes = map (\<lambda>c. [c]) asciiSpace @ unicodeSpace"

fun startsWith :: "string \<Rightarrow> string \<Rightarrow> bool" where
  "startsWith s [] = True"
| "startsWith [] (c # w) = False"
| "startsWith (d # s) (c # w) = (d = c \<and> startsWith s w)"

text \<open>
  \<open>spaceWidth ws s\<close> is the number of bytes of the space at the head of \<open>s\<close>, with
  \<open>ws\<close> the encodings to look for, and 0 when \<open>s\<close> does not start with one.
\<close>

definition spaceWidth :: "string list \<Rightarrow> string \<Rightarrow> nat" where
  "spaceWidth ws s = (case List.find (startsWith s) ws of None \<Rightarrow> 0 | Some w \<Rightarrow> length w)"

fun dropSpaces :: "string list \<Rightarrow> nat \<Rightarrow> string \<Rightarrow> string" where
  "dropSpaces ws 0 s = s"
| "dropSpaces ws (Suc n) s =
    (if spaceWidth ws s = 0 then s else dropSpaces ws n (drop (spaceWidth ws s) s))"

text \<open>
  Every step of the trimming loop removes at least one byte, so \<open>length s\<close> steps are
  enough to reach the first byte that is no space. The right end is trimmed the same way
  on the reversed bytes, against the reversed encodings.
\<close>

definition trimLeft :: "string \<Rightarrow> string" where
  "trimLeft s = dropSpaces spaceRunes (length s) s"

definition trimRight :: "string \<Rightarrow> string" where
  "trimRight s = rev (dropSpaces (map rev spaceRunes) (length s) (rev s))"

definition TrimSpace :: "string \<Rightarrow> string" where
  "TrimSpace s = trimRight (trimLeft s)"

subsection \<open>parseMessage\<close>

text \<open>
  The two ways in which \<open>indexChans\<close> is emptied after a failure. The \<open>range\<close> loop receives
  until it has taken an entry with index \<open>-1\<close>; the channel is never closed, so on an
  empty channel it waits for ever: \<open>None\<close>. The \<open>select\<close> loop with a \<open>default\<close>
  branch stops also when the channel is empty.
\<close>

fun drainUntilSentinel :: "indexChan list \<Rightarrow> indexChan list option" where
  "drainUntilSentinel [] = None"
| "drainUntilSentinel (idx # q) = (if index idx = - 1 then Some q else drainUntilSentinel q)"

fun drainAvailable :: "indexChan list \<Rightarrow> indexChan list" where
  "drainAvailable [] = []"
| "drainAvailable (idx # q) = (if index idx = - 1 then q else drainAvailable q)"

definition errStage1 :: error where
  "errStage1 = New ''Failed to find all structural indices for stage 1''"

definition errStage2 :: error where
  "errStage2 = New ''Bad parsing while executing stage 2''"

text \<open>The part of parseMessage before the stages run (trim, initialize, flags, channel).\<close>

definition prepareMessage ::
  "host \<Rightarrow> string \<Rightarrow> bool \<Rightarrow> nat \<times> internalParsedJson \<Rightarrow> nat \<times> internalParsedJson" where
  "prepareMessage H msg isND st =
    (case st of (heap, pj) \<Rightarrow>
      let pj1 = pj\<lparr>Message := TrimSpace msg\<rparr>;
          (heap1, pj2) = initialize H (length (Message pj1)) (heap, pj1);
          pj3 = pj2\<lparr>ndjson := (if isND then 1 else 0)\<rparr>;
          pj4 = (if indexChans pj3 = None
                 then pj3\<lparr>indexChans := Some \<lparr>chanCap = indexSlots H - 2, queue = []\<rparr>\<rparr>
                 else pj3)
      in (heap1, pj4\<lparr>buffersOffset := NOT 0\<rparr>))"

definition withQueue :: "internalParsedJson \<Rightarrow> indexChan list \<Rightarrow> internalParsedJson" where
  "withQueue pj q = pj\<lparr>indexChans := map_option (\<lambda>c. c\<lparr>queue := q\<rparr>) (indexChans pj)\<rparr>"

definition pending :: "internalParsedJson \<Rightarrow> indexChan list" where
  "pending pj = (case indexChans pj of None \<Rightarrow> [] | Some c \<Rightarrow> queue c)"

text \<open>
  \<open>parseMessage\<close> returns the error (\<open>None\<close> is \<open>nil\<close>) with the state it leaves, or
  does not return (the outer \<open>None\<close>) when a draining loop waits for ever.

  In the branch for long inputs the stages run as two goroutines joined by \<open>wg.Wait()\<close>.
  They talk through \<open>indexChans\<close> only, stage 1 sending and stage 2 receiving, so a run
  that ends has the outcome of stage 1 run to its end followed by stage 2 and, where stage 2
  failed before the end of the stream, by its draining loop. The bound of the channel, which
  can only suspend a stage, is not part of this model.
\<close>

definition parseMessage ::
  "host \<Rightarrow> string \<Rightarrow> bool \<Rightarrow> nat \<times> internalParsedJson
    \<Rightarrow> (error option \<times> nat \<times> internalParsedJson) option" where
  "parseMessage H msg isND st =
    (case prepareMessage H msg isND st of (heap, pj) \<Rightarrow>
      case findStructuralIndices H pj of (ok1, pj1) \<Rightarrow>
        if length (Message pj) > 8192 then
          (case unifiedMachine H pj1 of ((ok2, done), pj2) \<Rightarrow>
             let err = (if \<not> ok2 then Some errStage2 else None);
                 drained = (if \<not> ok2 \<and> \<not> done then drainUntilSentinel (pending pj2)
                            else Some (pending pj2))
             in case drained of
                  None \<Rightarrow> None
                | Some q \<Rightarrow>
                    Some (if \<not> ok1 then Some errStage1 else err, heap, withQueue pj2 q))
        else if \<not> ok1 then
          (case drainUntilSentinel (pending pj1) of
             None \<Rightarrow> None
           | Some q \<Rightarrow> Some (Some errStage1, heap, withQueue pj1 q))
        else
          (case unifiedMachine H pj1 of ((ok2, done), pj2) \<Rightarrow>
             if \<not> ok2 then Some (Some errStage2, heap, withQueue pj2 (drainAvailable (pending pj2)))
             else Some (None, heap, pj2)))"

subsection \<open>The entry points Parse and ParseND\<close>

text \<open>
  A result handed back for reuse is a \<open>ParsedJson\<close> whose \<open>internal\<close> pointer may lead
  to the working state of the parse that made it. A parser option works on the state and may
  fail.
\<close>

record reusable =
  parsed :: ParsedJson
  internal :: "internalParsedJson option"

type_synonym ParserOption = "internalParsedJson \<Rightarrow> error + internalParsedJson"

definition errHost :: error where
  "errHost = New ''Host CPU does not meet target specs''"

fun applyOptions :: "ParserOption list \<Rightarrow> internalParsedJson \<Rightarrow> error + internalParsedJson" where
  "applyOptions [] pj = Inr pj"
| "applyOptions (opt # opts) pj =
    (case opt pj of Inl err \<Rightarrow> Inl err | Inr pj1 \<Rightarrow> applyOptions opts pj1)"

definition newInternalParsedJson ::
  "host \<Rightarrow> reusable option \<Rightarrow> ParserOption list \<Rightarrow> error + internalParsedJson" where
  "newInternalParsedJson H reuse opts =
    (if \<not> SupportedCPU H then Inl errHost
     else
       let pj = (case reuse of
                   Some r \<Rightarrow>
                     (case internal r of
                        Some i \<Rightarrow> i\<lparr>Message := Message (parsed r), Tape := Tape (parsed r),
                                     Strings := Strings (parsed r)\<rparr>
                      | None \<Rightarrow> zeroInternalParsedJson)
                 | None \<Rightarrow> zeroInternalParsedJson)
       in applyOptions opts (pj\<lparr>copyStrings := True\<rparr>))"

text \<open>
  Both entry points give \<open>Some (Inl err)\<close> for an error, \<open>Some (Inr (heap, pj))\<close> for a
  result and \<open>None\<close> when parseMessage does not return.
\<close>

definition Parse ::
  "host \<Rightarrow> string \<Rightarrow> reusable option \<Rightarrow> ParserOption list \<Rightarrow> nat
    \<Rightarrow> (error + nat \<times> internalParsedJson) option" where
  "Parse H b reuse opts heap =
    (case newInternalParsedJson H reuse opts of
       Inl err \<Rightarrow> Some (Inl err)
     | Inr pj \<Rightarrow>
         (case parseMessage H b False (heap, pj) of
            None \<Rightarrow> None
          | Some (Some err, st) \<Rightarrow> Some (Inl err)
          | Some (None, st) \<Rightarrow> Some (Inr st)))"

definition ParseND ::
  "host \<Rightarrow> string \<Rightarrow> reusable option \<Rightarrow> ParserOption list \<Rightarrow> nat
    \<Rightarrow> (error + nat \<times> internalParsedJson) option" where
  "ParseND H b reuse opts heap =
    (case newInternalParsedJson H reuse opts of
       Inl err \<Rightarrow> Some (Inl err)
     | Inr pj \<Rightarrow>
         (case parseMessage H (TrimSpace b) True (heap, pj) of
            None \<Rightarrow> None
          | Some (Some err, st) \<Rightarrow> Some (Inl err)
          | Some (None, st) \<Rightarrow> Some (Inr st)))"

section \<open>The streaming pipeline (ParseNDStream)\<close>

text \<open>
  An item of the output queue carries a value or an error. What happens on the output
  queue \<open>res\<close> is a list of events: the items sent, in order, and the closing of the
  queue.
\<close>

record Stream =
  Value :: "ParsedJson option"
  Error :: "error option"

datatype event = Send Stream | Close

text \<open>
  The consumer of \<open>res\<close> is outside the program. When the sequencer comes to its
  \<open>k\<close>-th item the consumer is receiving at that moment (the non-blocking send of the
  \<open>select\<close> succeeds), or will receive once the sequencer waits in a blocking send, or
  never receives again.
\<close>

datatype attention = ReceivesNow | ReceivesLater | NeverReceives

subsection \<open>The sequencer\<close>

text \<open>
  The goroutine that forwards finished items in order. \<open>queue\<close> holds one single-slot
  future per chunk, in the order of submission; the list gives what each future yields,
  \<open>None\<close> for a chunk whose parse never finishes, at which \<open>i := <-items\<close> waits for ever. The
  variable \<open>end\<close> of the source is \<open>ended\<close>. The sequencer first tries to send without
  blocking and, when that fails, sends blocking only if \<open>end\<close> is not set; with \<open>end\<close>
  set the item is dropped. A run that waits for ever sends nothing more and does not close
  \<open>res\<close>; a run that reaches the end of \<open>queue\<close> closes it (the deferred
  \<open>close(res)\<close>).
\<close>

fun sequencer :: "(nat \<Rightarrow> attention) \<Rightarrow> nat \<Rightarrow> bool \<Rightarrow> Stream option list \<Rightarrow> event list" where
  "sequencer consumer k ended [] = [Close]"
| "sequencer consumer k ended (None # items) = []"
| "sequencer consumer k ended (Some i # items) =
    (if consumer k = ReceivesNow then
       Send i # sequencer consumer (Suc k) (ended \<or> Error i \<noteq> None) items
     else if \<not> ended then
       (if consumer k = ReceivesLater then
          Send i # sequencer consumer (Suc k) (ended \<or> Error i \<noteq> None) items
        else [])
     else sequencer consumer (Suc k) (ended \<or> Error i \<noteq> None) items)"

subsection \<open>The reading loop\<close>

text \<open>
  The source \<open>r\<close>: the bytes it still has and the error it answers with once they are
  used up (\<open>EOF\<close> for a source that ends, another error for one that breaks). A read
  of the source into room for \<open>n\<close> bytes (\<open>sourceRead\<close>) returns as many bytes as
  there is room for while the source has them.
\<close>

record source =
  remaining :: string
  failure :: error

definition tmpSize :: nat where
  "tmpSize = 10 * 2 ^ 20"

definition sourceRead :: "nat \<Rightarrow> source \<Rightarrow> string \<times> error option \<times> source" where
  "sourceRead n r =
    (if remaining r = [] then ([], Some (failure r), r)
     else (take n (remaining r), None, r\<lparr>remaining := drop n (remaining r)\<rparr>))"

text \<open>
  \<open>bufio.NewReaderSize(r, tmpSize)\<close> puts a buffer of \<open>tmpSize\<close> bytes in front of
  the source. The state of the reader is the bytes read from the source and not yet handed
  out (\<open>buffered\<close>, the library's \<open>buf[r:w]\<close>), the error of the source that is still
  to be reported (\<open>pendingErr\<close>, the library's \<open>err\<close>) and the source itself. The
  library's \<open>fill\<close> reads once from the source into the free part of the buffer and keeps
  the error of that read; it is called on a buffer that is not full.
\<close>

record bufReader =
  buffered :: string
  pendingErr :: "error option"
  src :: source

definition NewReaderSize :: "source \<Rightarrow> bufReader" where
  "NewReaderSize r = \<lparr>buffered = [], pendingErr = None, src = r\<rparr>"

definition fill :: "bufReader \<Rightarrow> bufReader" where
  "fill b =
    (case sourceRead (tmpSize - length (buffered b)) (src b) of
       (bytes, err, r1) \<Rightarrow> b\<lparr>buffered := buffered b @ bytes, pendingErr := err, src := r1\<rparr>)"

text \<open>
  \<open>readBlock\<close> is \<open>buf.Read(tmp)\<close> with \<open>tmp\<close> of \<open>tmpSize\<close> bytes. While
  bytes are buffered the library hands out those and does not touch the source, so the block
  behind a \<open>ReadBytes\<close> is what that call left in the buffer. On an empty buffer a pending
  error is returned and forgotten; with none pending the library, the slice being as large
  as the buffer, reads once from the source straight into \<open>tmp\<close>.
\<close>

definition readBlock :: "bufReader \<Rightarrow> string \<times> error option \<times> bufReader" where
  "readBlock b =
    (if buffered b = [] then
       (case pendingErr b of
          Some e \<Rightarrow> ([], Some e, b\<lparr>pendingErr := None\<rparr>)
        | None \<Rightarrow>
            (case sourceRead tmpSize (src b) of
               (bytes, err, r1) \<Rightarrow> (bytes, err, b\<lparr>src := r1\<rparr>)))
     else (take tmpSize (buffered b), None, b\<lparr>buffered := drop tmpSize (buffered b)\<rparr>))"

text \<open>
  \<open>readBytes\<close> is \<open>buf.ReadBytes('\n')\<close>, that is the library's \<open>ReadSlice\<close>
  called until it has found the newline, with the fragments it returned on a full buffer
  collected in \<open>acc\<close>. \<open>ReadSlice\<close> looks for the newline among the buffered bytes and
  returns the bytes up to it; if there is none it returns all buffered bytes, with the
  pending error if there is one, or as a fragment if the buffer is full, and otherwise
  fills the buffer and looks again. What the last \<open>fill\<close> has read behind the newline
  stays in the buffer.
\<close>

function readBytes :: "string \<Rightarrow> bufReader \<Rightarrow> string \<times> error option \<times> bufReader" where
  "readBytes acc b =
    (if CHR 0x0A \<in> set (buffered b) then
       (acc @ takeWhile (\<lambda>c. c \<noteq> CHR 0x0A) (buffered b) @ [CHR 0x0A], None,
        b\<lparr>buffered := tl (dropWhile (\<lambda>c. c \<noteq> CHR 0x0A) (buffered b))\<rparr>)
     else
       case pendingErr b of
         Some e \<Rightarrow> (acc @ buffered b, Some e, b\<lparr>buffered := [], pendingErr := None\<rparr>)
       | None \<Rightarrow>
           if tmpSize \<le> length (buffered b)
           then readBytes (acc @ buffered b) (b\<lparr>buffered := []\<rparr>)
           else readBytes acc (fill b))"
  by pat_completeness auto
termination
proof (relation "measure (\<lambda>(acc, b). 3 * length (remaining (src b)) +
    (if pendingErr b = None then 2 else 0) + (if tmpSize \<le> length (buffered b) then 1 else 0))")
  show "wf (measure (\<lambda>(acc, b). 3 * length (remaining (src b)) +
    (if pendingErr b = None then 2 else 0) + (if tmpSize \<le> length (buffered b) then 1 else 0)))"
    by simp
next
  fix acc :: string and b :: bufReader
  assume "pendingErr b = None" "tmpSize \<le> length (buffered b)"
  then show "((acc @ buffered b, b\<lparr>buffered := []\<rparr>), (acc, b)) \<in>
    measure (\<lambda>(acc, b). 3 * length (remaining (src b)) +
      (if pendingErr b = None then 2 else 0) + (if tmpSize \<le> length (buffered b) then 1 else 0))"
    by (simp add: tmpSize_def)
next
  fix acc :: string and b :: bufReader
  assume none: "pendingErr b = None" and room: "\<not> tmpSize \<le> length (buffered b)"
  show "((acc, fill b), (acc, b)) \<in>
    measure (\<lambda>(acc, b). 3 * length (remaining (src b)) +
      (if pendingErr b = None then 2 else 0) + (if tmpSize \<le> length (buffered b) then 1 else 0))"
  proof (cases "remaining (src b) = []")
    case True
    with none room show ?thesis
      by (simp add: fill_def sourceRead_def)
  next
    case False
    then have "0 < length (remaining (src b))" by simp
    with none room False show ?thesis
      by (auto simp: fill_def sourceRead_def min_def)
  qed
qed

text \<open>
  One turn of the loop up to the chunk: a block and, unless the source had ended, the bytes
  up to the next newline behind it. The error is the one the turn goes on with.
\<close>

definition readChunk :: "bufReader \<Rightarrow> string \<times> error option \<times> bufReader" where
  "readChunk b =
    (case readBlock b of
       (tmp, err, b1) \<Rightarrow>
         if err = None then (case readBytes [] b1 of (bs, err2, b2) \<Rightarrow> (tmp @ bs, err2, b2))
         else (tmp, err, b1))"

text \<open>
  The goroutine of one chunk: a fresh parse state, filled from a result of the \<open>reuse\<close> channel
  if one is waiting there (\<open>v\<close>; the byte pool only recycles memory and is left out), then
  parseMessage in NDJSON mode. \<open>None\<close> is a chunk whose parseMessage does not return.
\<close>

definition parseChunk :: "host \<Rightarrow> ParsedJson option \<Rightarrow> string \<Rightarrow> nat \<Rightarrow> Stream option \<times> nat" where
  "parseChunk H v tmp heap =
    (let pj0 = zeroInternalParsedJson\<lparr>copyStrings := True\<rparr>;
         pj = (case v of
                 Some p \<Rightarrow> pj0\<lparr>Message := Message p, Tape := Tape p, Strings := Strings p\<rparr>
               | None \<Rightarrow> pj0)
     in case parseMessage H tmp True (heap, pj) of
          None \<Rightarrow> (None, heap)
        | Some (Some parseErr, heap1, pj1) \<Rightarrow>
            (Some \<lparr>Value = None, Error = Some (Wrap ''parsing input: '' parseErr)\<rparr>, heap1)
        | Some (None, heap1, pj1) \<Rightarrow>
            (Some \<lparr>Value = Some \<lparr>Message = Message pj1, Tape = Tape pj1, Strings = Strings pj1\<rparr>,
                   Error = None\<rparr>, heap1))"

definition queueError :: "error \<Rightarrow> Stream option" where
  "queueError err = Some \<lparr>Value = None, Error = Some err\<rparr>"

text \<open>
  The reading goroutine: the futures it puts on \<open>queue\<close>, in order, and the reader as
  it leaves it. An error of the source other than the end is queued alone (the bytes of that
  turn are dropped); the end is queued behind the last chunk. \<open>reuse k\<close> is what the goroutine
  of turn \<open>k\<close> finds on the reuse channel. A turn that goes on has handed out at least
  one byte and has put none back, which is why the loop ends.
\<close>

function readLoop ::
  "host \<Rightarrow> (nat \<Rightarrow> ParsedJson option) \<Rightarrow> nat \<Rightarrow> bufReader \<Rightarrow> nat
    \<Rightarrow> Stream option list \<times> bufReader \<times> nat" where
  "readLoop H reuse k b heap =
    (case readChunk b of
       (tmp, err, b1) \<Rightarrow>
         (case err of
            Some e \<Rightarrow>
              if e \<noteq> EOF then ([queueError e], b1, heap)
              else if tmp \<noteq> [] then
                (case parseChunk H (reuse k) tmp heap of
                   (item, heap1) \<Rightarrow> ([item, queueError e], b1, heap1))
              else ([queueError e], b1, heap)
          | None \<Rightarrow>
              if tmp \<noteq> [] then
                (case parseChunk H (reuse k) tmp heap of
                   (item, heap1) \<Rightarrow>
                     (case readLoop H reuse (Suc k) b1 heap1 of
                        (items, b2, heap2) \<Rightarrow> (item # items, b2, heap2)))
              else readLoop H reuse (Suc k) b1 heap))"
  by pat_completeness auto
termination
proof -
  let ?left = "\<lambda>b. length (buffered b) + length (remaining (src b))"
  have bytes: "?left b' \<le> ?left b" if "readBytes acc b = (out, err, b')" for acc b out err b'
    using that
  proof (induction acc b arbitrary: out err b' rule: readBytes.induct)
    case (1 acc b)
    show ?case
    proof (cases "CHR 0x0A \<in> set (buffered b)")
      case True
      with "1.prems" have b': "b' = b\<lparr>buffered := tl (dropWhile (\<lambda>c. c \<noteq> CHR 0x0A) (buffered b))\<rparr>"
        by (simp add: readBytes.simps [of acc b])
      have "length (tl (dropWhile (\<lambda>c. c \<noteq> CHR 0x0A) (buffered b))) \<le> length (buffered b)"
        using length_dropWhile_le [of "\<lambda>c. c \<noteq> CHR 0x0A" "buffered b"] by simp
      then show ?thesis by (simp add: b')
    next
      case nl: False
      show ?thesis
      proof (cases "pendingErr b")
        case (Some e)
        with nl "1.prems" show ?thesis
          by (auto simp: readBytes.simps [of acc b])
      next
        case None
        show ?thesis
        proof (cases "tmpSize \<le> length (buffered b)")
          case True
          with nl None "1.prems" have "readBytes (acc @ buffered b) (b\<lparr>buffered := []\<rparr>) = (out, err, b')"
            by (simp add: readBytes.simps [of acc b])
          from "1.IH"(1) [OF nl None True this] show ?thesis by simp
        next
          case False
          with nl None "1.prems" have "readBytes acc (fill b) = (out, err, b')"
            by (simp add: readBytes.simps [of acc b])
          from "1.IH"(2) [OF nl None False this] have "?left b' \<le> ?left (fill b)" .
          also have "?left (fill b) = ?left b"
            by (simp add: fill_def sourceRead_def min_def)
          finally show ?thesis .
        qed
      qed
    qed
  qed
  have block: "?left b1 < ?left b" if "readBlock b = (tmp, None, b1)" for b tmp b1
  proof (cases "buffered b = []")
    case True
    with that show ?thesis
      by (auto simp: readBlock_def sourceRead_def tmpSize_def split: option.splits if_splits)
  next
    case False
    then have "0 < length (buffered b)" by simp
    with that False show ?thesis
      by (auto simp: readBlock_def tmpSize_def)
  qed
  have progress: "?left b1 < ?left b" if chunk: "readChunk b = (tmp, None, b1)" for b tmp b1
  proof -
    obtain t0 e0 b0 where rb: "readBlock b = (t0, e0, b0)"
      by (cases "readBlock b") auto
    show ?thesis
    proof (cases e0)
      case (Some e)
      with rb chunk show ?thesis by (simp add: readChunk_def)
    next
      case None
      obtain bs e2 b2 where rbs: "readBytes [] b0 = (bs, e2, b2)"
        by (cases "readBytes [] b0") auto
      with rb None chunk have "b2 = b1"
        by (simp add: readChunk_def)
      with bytes [OF rbs] block [OF rb [unfolded None]] show ?thesis by simp
    qed
  qed
  show ?thesis
    by (relation "measure (\<lambda>(H, reuse, k, b, heap). length (buffered b) + length (remaining (src b)))")
       (auto dest: progress [OF sym])
qed

subsection \<open>ParseNDStream\<close>

text \<open>
  On a host without the features one goroutine sends the error and closes \<open>res\<close>; the
  source is not touched. Otherwise the reading goroutine fills \<open>queue\<close> through a new
  buffered reader and the sequencer forwards from it. The events are those on \<open>res\<close>;
  the source is given back as the run leaves it when nothing waits for ever (the bound of
  \<open>queue\<close>, which can only suspend the reader, is not modelled).
\<close>

definition ParseNDStream ::
  "host \<Rightarrow> source \<Rightarrow> (nat \<Rightarrow> attention) \<Rightarrow> (nat \<Rightarrow> ParsedJson option) \<Rightarrow> nat
    \<Rightarrow> event list \<times> source" where
  "ParseNDStream H r consumer reuse heap =
    (if \<not> SupportedCPU H then
       ((if consumer 0 = NeverReceives then []
         else [Send \<lparr>Value = None, Error = Some errHost\<rparr>, Close]), r)
     else
       case readLoop H reuse 0 (NewReaderSize r) heap of
         (items, b1, heap1) \<Rightarrow> (sequencer consumer 0 False items, src b1))"

section \<open>Concrete instances for the closed examples\<close>

text \<open>
  A choice of the tag constants (three letters, a shift that puts the tag into the top
  byte, the flag 1). Hosts with stand-ins for the stages: on \<open>failingHost\<close> both stages
  fail, stage 1 after queueing an index and the end marker, stage 2 before the end of the
  stream; on \<open>stage2FailingHost\<close> stage 1 succeeds after queueing the same entries and
  stage 2 fails before the end of the stream; on \<open>silentHost\<close> both stages fail and
  stage 1 queues nothing, not even the end marker; on \<open>idleHost\<close> both succeed and leave
  the state as it is. \<open>longMessage\<close> is an input of more than 8 KiB.
  \<open>eagerConsumer\<close> is receiving whenever the sequencer has an item.
\<close>

definition exampleTags :: tagConsts where
  "exampleTags =
    \<lparr>TagInteger = 108, TagUint = 117, TagFloat = 100, JSONTAGOFFSET = 56,
     FloatOverflowedInteger = 1\<rparr>"





definition idleHost :: host where
  "idleHost =
    \<lparr>SupportedCPU = True, maxdepth = 128, indexSlots = 16,
     findStructuralIndices = (\<lambda>pj. (True, pj)),
     unifiedMachine = (\<lambda>pj. ((True, True), pj))\<rparr>"

definition eagerConsumer :: "nat \<Rightarrow> attention" where
  "eagerConsumer k = ReceivesNow"

definition okItem :: Stream where
  "okItem = \<lparr>Value = Some \<lparr>Message = ''[1]'', Tape = nilSlice, Strings = None\<rparr>, Error = None\<rparr>"

definition badItem :: Stream where
  "badItem = \<lparr>Value = None, Error = Some (Wrap ''parsing input: '' errStage2)\<rparr>"

text \<open>
  A JSON number whose value is 1, written with an exponent of six digits: a hundred thousand
  zeros and a one behind the point, times ten to the power 100001.
\<close>

definition cappedExponentNumber :: jsonNumber where
  "cappedExponentNumber =
    \<lparr>negative = False, intPart = ''0'', fracPart = replicate 100000 (CHR ''0'') @ ''1'',
     expMark = ''e'', expDigits = ''100001''\<rparr>"

section \<open>Properties of the number grammar\<close>

subsection \<open>Evaluation of the model on literals\<close>

lemmas table_defs =
  isNumberRune_def isNumberRuneTable_def isPartOfNumberFlag_def isFloatOnlyFlag_def
  isMinusFlag_def isEOVFlag_def isDigitFlag_def isMustHaveDigitNext_def

lemma uintCutoff_above_one: "\<not> (1844674407370955162 :: 64 word) \<le> 1"
  by (simp add: word_le_nat_alt)

lemmas strconv_defs =
  ParseInt_def ParseUint_def isDecDigit_def digitVal_def uintCutoff_def uintMaxVal_def
  intCutoff_def uintCutoff_above_one

lemmas parseNumber_defs = parseNumber_def parseNumberFloat_def maxIntLen_def

lemma bitlen_0: "bitlen 0 = 0"
  by (simp add: bitlen.simps)

lemma bitlen_Suc_0: "bitlen (Suc 0) = Suc 0"
  by (simp add: bitlen.simps)

lemma bitlen_Bit0: "bitlen (numeral (Num.Bit0 n)) = Suc (bitlen (numeral n))"
  by (subst bitlen.simps) simp

lemma bitlen_Bit1: "bitlen (numeral (Num.Bit1 n)) = Suc (bitlen (numeral n))"
  by (subst bitlen.simps) simp

lemma bitlen_One: "bitlen (numeral Num.One) = Suc 0"
  using bitlen_Suc_0 by simp

lemmas float_defs =
  ParseFloat_def readFloat_def float64Magnitude_def floorLog2_def roundHalfEven_def
  float64Inf_def isDecDigit_def digitVal_def
  bitlen_0 bitlen_Suc_0 bitlen_Bit0 bitlen_Bit1 bitlen_One

lemma ParseFloat_two_pow_64: "ParseFloat ''18446744073709551616'' = Some 0x43F0000000000000"
  by (simp add: float_defs)

lemma ParseFloat_below_min_int64:
  "ParseFloat ''-9223372036854775809'' = Some 0xC3E0000000000000"
  by (simp add: float_defs)

lemma ParseFloat_minus_01_5: "ParseFloat ''-01.5'' = Some 0xBFF8000000000000"
  by (simp add: float_defs)

lemma ParseFloat_minus_zeros_1:
  "ParseFloat ''-000000000000000000001'' = Some 0xBFF0000000000000"
  by (simp add: float_defs)

subsection \<open>The scan fails on a sign or point without a digit behind it\<close>

lemma mustHaveDigitNext_not_EOV:
  "isNumberRune v AND isMustHaveDigitNext \<noteq> 0 \<Longrightarrow> isNumberRune v \<noteq> isEOVFlag \<and> isNumberRune v \<noteq> 0"
  by (auto simp: isEOVFlag_def isMustHaveDigitNext_def)

lemma scanNumber_mustHaveDigitNext:
  assumes "\<forall>c \<in> set pre. isNumberRune c \<noteq> isEOVFlag"
    and "isNumberRune v AND isMustHaveDigitNext \<noteq> 0"
    and "rest = [] \<or> isNumberRune (hd rest) AND isDigitFlag = 0"
  shows "scanNumber (pre @ v # rest) i found pos = None"
  using assms
proof (induction pre arbitrary: i found pos)
  case Nil
  then show ?case
    using mustHaveDigitNext_not_EOV [of v] by (auto simp: Let_def word_greater_zero_iff)
next
  case (Cons c pre)
  then show ?case by (simp add: Let_def)
qed

text \<open>
  C8. parseNumber returns the not-a-number signal \<open>(0, 0)\<close> whenever the scan, before it
  has met an end-of-value byte, comes to a byte flagged mustHaveDigitNext (decimal point or
  minus sign) whose next byte is missing or is not a digit, and whenever no byte is consumed
  before the first end-of-value byte (an empty window or one that starts with an
  end-of-value byte). In particular \<open>-\<close>, \<open>.\<close>, \<open>1.\<close> and \<open>1e-\<close> all fail.
\<close>

theorem parseNumber_must_have_digit_next:
  "(buf = pre @ v # rest \<and> (\<forall>c \<in> set pre. isNumberRune c \<noteq> isEOVFlag) \<and>
      isNumberRune v AND isMustHaveDigitNext \<noteq> 0 \<and>
      (rest = [] \<or> isNumberRune (hd rest) AND isDigitFlag = 0)
        \<longrightarrow> parseNumber K buf = (0, 0)) \<and>
   (buf = [] \<or> isNumberRune (hd buf) = isEOVFlag \<longrightarrow> parseNumber K buf = (0, 0)) \<and>
   parseNumber K ''-'' = (0, 0) \<and> parseNumber K ''.'' = (0, 0) \<and>
   parseNumber K ''1.'' = (0, 0) \<and> parseNumber K ''1e-'' = (0, 0)"
proof (intro conjI impI)
  assume "buf = pre @ v # rest \<and> (\<forall>c \<in> set pre. isNumberRune c \<noteq> isEOVFlag) \<and>
      isNumberRune v AND isMustHaveDigitNext \<noteq> 0 \<and>
      (rest = [] \<or> isNumberRune (hd rest) AND isDigitFlag = 0)"
  then show "parseNumber K buf = (0, 0)"
    by (simp add: parseNumber_def scanNumber_mustHaveDigitNext)
next
  assume "buf = [] \<or> isNumberRune (hd buf) = isEOVFlag"
  then show "parseNumber K buf = (0, 0)"
    by (cases buf) (auto simp: parseNumber_def Let_def isEOVFlag_def)
qed (simp_all add: parseNumber_defs table_defs)

theorem parseNumber_must_have_digit_next_witness:
  "\<forall>K. parseNumber K ''12.x'' = (0, 0) \<and> parseNumber K '',1'' = (0, 0)"
proof
  fix K
  have a: "''12.x'' = ''12'' @ CHR ''.'' # ''x'' \<and> (\<forall>c \<in> set ''12''. isNumberRune c \<noteq> isEOVFlag) \<and>
      isNumberRune CHR ''.'' AND isMustHaveDigitNext \<noteq> 0 \<and>
      (''x'' = [] \<or> isNumberRune (hd ''x'') AND isDigitFlag = 0)"
    by (simp add: table_defs)
  have b: "'',1'' = [] \<or> isNumberRune (hd '',1'') = isEOVFlag"
    by (simp add: table_defs)
  from a b show "parseNumber K ''12.x'' = (0, 0) \<and> parseNumber K '',1'' = (0, 0)"
    using parseNumber_must_have_digit_next [of "''12.x''" "''12''" "CHR ''.''" "''x''" K]
      parseNumber_must_have_digit_next [of "'',1''" pre v rest K]
    by blast
qed

text \<open>
  C10. Some inputs that begin with a plus sign are numbers for parseNumber: \<open>+\<close> is
  classified as part of a number only, without the flag that demands a digit behind it, the
  signed conversion accepts an explicit plus sign, and \<open>+5\<close> comes back with the tag
  Integer and the value 5, not as the not-a-number signal.
\<close>

theorem parseNumber_accepts_plus_sign:
  "isNumberRune CHR ''+'' = isPartOfNumberFlag \<and>
   isNumberRune CHR ''+'' AND isMustHaveDigitNext = 0 \<and>
   ParseInt ''+5'' = Ok 5 \<and>
   parseNumber K ''+5'' = (push_bit (JSONTAGOFFSET K) (TagInteger K), 5) \<and>
   parseNumber K ''+5'' \<noteq> (0, 0)"
  by (simp add: parseNumber_defs table_defs strconv_defs)

text \<open>
  C5. The literals at the 64-bit boundaries: the largest \<open>int64\<close> is an Integer, the two
  literals above it up to the largest \<open>uint64\<close> are Uint, the next one is a Float that
  carries the overflowed-integer flag; the smallest \<open>int64\<close> is an Integer (its payload is
  the two's-complement pattern), and the literal below it is a Float with the flag.
\<close>

theorem parseNumber_boundaries:
  "parseNumber K ''9223372036854775807'' =
     (push_bit (JSONTAGOFFSET K) (TagInteger K), 0x7FFFFFFFFFFFFFFF) \<and>
   parseNumber K ''9223372036854775808'' =
     (push_bit (JSONTAGOFFSET K) (TagUint K), 0x8000000000000000) \<and>
   parseNumber K ''18446744073709551615'' =
     (push_bit (JSONTAGOFFSET K) (TagUint K), 0xFFFFFFFFFFFFFFFF) \<and>
   parseNumber K ''18446744073709551616'' =
     (push_bit (JSONTAGOFFSET K) (TagFloat K) OR FloatOverflowedInteger K, 0x43F0000000000000) \<and>
   parseNumber K ''-9223372036854775808'' =
     (push_bit (JSONTAGOFFSET K) (TagInteger K), 0x8000000000000000) \<and>
   parseNumber K ''-9223372036854775809'' =
     (push_bit (JSONTAGOFFSET K) (TagFloat K) OR FloatOverflowedInteger K, 0xC3E0000000000000)"
proof (intro conjI)
  show "parseNumber K ''18446744073709551616'' =
     (push_bit (JSONTAGOFFSET K) (TagFloat K) OR FloatOverflowedInteger K, 0x43F0000000000000)"
    by (simp add: parseNumber_defs table_defs strconv_defs ParseFloat_two_pow_64)
  show "parseNumber K ''-9223372036854775809'' =
     (push_bit (JSONTAGOFFSET K) (TagFloat K) OR FloatOverflowedInteger K, 0xC3E0000000000000)"
    by (simp add: parseNumber_defs table_defs strconv_defs ParseFloat_below_min_int64)
qed (simp_all add: parseNumber_defs table_defs strconv_defs)

subsection \<open>The leading-zero rule\<close>

text \<open>
  The literals the rule is usually shown on, and the rule itself for a window without a minus
  sign: a leading zero with a byte behind it that is neither point nor exponent marker fails
  on the integer path and on the float path alike.
\<close>

lemma ParseFloat_leading_zero_examples:
  "ParseFloat ''0.5'' = Some 0x3FE0000000000000" "ParseFloat ''0e1'' = Some 0"
  by (simp_all add: float_defs)

lemma parseNumber_leading_zero_examples:
  "parseNumber K ''01'' = (0, 0)"
  "parseNumber K ''-01'' = (0, 0)"
  "parseNumber K ''0'' = (push_bit (JSONTAGOFFSET K) (TagInteger K), 0)"
  "parseNumber K ''-0'' = (push_bit (JSONTAGOFFSET K) (TagInteger K), 0)"
  "parseNumber K ''0.5'' = (push_bit (JSONTAGOFFSET K) (TagFloat K), 0x3FE0000000000000)"
  "parseNumber K ''0e1'' = (push_bit (JSONTAGOFFSET K) (TagFloat K), 0)"
  by (simp_all add: parseNumber_defs table_defs strconv_defs ParseFloat_leading_zero_examples)

lemma parseNumber_leading_zero_without_minus:
  assumes "scanNumber buf 0 0 0 = Some (found, pos)"
    and "found AND isMinusFlag = 0"
    and "pos > 1" and "buf ! 0 = CHR ''0''"
    and "isNumberRune (buf ! 1) AND isFloatOnlyFlag = 0"
  shows "parseNumber K buf = (0, 0)"
  using assms by (simp add: parseNumber_def parseNumberFloat_def Let_def del: scanNumber.simps)

text \<open>
  C4, at the inputs where the code leaves the rule: the token \<open>-01.5\<close> has a float-only
  byte and a zero in front of another digit. The leading-zero test of the float path looks
  at \<open>buf[0]\<close> only, which is the minus sign, so the token is handed to ParseFloat and
  comes back as the Float \<open>-1.5\<close>. The same test is the only one a token of more than 20
  bytes meets: a minus sign, twenty zeros and a one come back as the Float \<open>-1\<close> with
  the overflowed-integer flag.
\<close>

theorem parseNumber_negative_float_leading_zero:
  "parseNumber K ''-01.5'' = (push_bit (JSONTAGOFFSET K) (TagFloat K), 0xBFF8000000000000) \<and>
   parseNumber K ''-000000000000000000001'' =
     (push_bit (JSONTAGOFFSET K) (TagFloat K) OR FloatOverflowedInteger K, 0xBFF0000000000000)"
  by (simp add: parseNumber_defs table_defs ParseFloat_minus_01_5 ParseFloat_minus_zeros_1)

subsection \<open>The conversion to binary64 rounds to nearest\<close>

text \<open>
  The conversion of the library model, \<open>float64Magnitude\<close>, is checked against binary64
  itself: its result is the finite number nearest to the decimal value, the even one of two
  equally near, and it leaves the finite numbers exactly when the value is at least half-way
  from the largest of them to \<open>2 ^ 1024\<close>. The steps: \<open>bitlen\<close> and \<open>floorLog2\<close>
  find the binary exponent, \<open>roundHalfEven\<close> rounds a quotient to the nearest integer,
  ties to even, and the bit patterns \<open>K * 2 ^ 52 + q\<close> that the conversion builds have
  the value \<open>q * 2 ^ K\<close> in units of \<open>2 ^ (- 1074)\<close>; the values of the bit patterns
  grow with the patterns, so the neighbours of the result are the nearest other numbers.
\<close>

lemma bitlen_bounds: "0 < n \<Longrightarrow> 2 ^ (bitlen n - 1) \<le> n \<and> n < 2 ^ bitlen n"
proof (induction n rule: bitlen.induct)
  case (1 n)
  show ?case
  proof (cases "n div 2 = 0")
    case True
    with 1 have "n = Suc 0" by (simp add: div_eq_0_iff) 
    then show ?thesis by (simp add: bitlen_Suc_0)
  next
    case False
    then have pos: "0 < n div 2" by simp
    from 1 have n0: "n \<noteq> 0" by simp
    from "1.IH" [OF n0 pos] have a: "2 ^ (bitlen (n div 2) - 1) \<le> n div 2"
      and b: "n div 2 < 2 ^ bitlen (n div 2)" by simp_all
    have bl: "bitlen n = Suc (bitlen (n div 2))"
      using n0 by (subst bitlen.simps) simp
    have gt: "bitlen (n div 2) > 0"
      using pos by (subst bitlen.simps) simp
    have "2 ^ (bitlen n - 1) = 2 * 2 ^ (bitlen (n div 2) - 1)"
      using gt bl by (cases "bitlen (n div 2)") simp_all
    also have "\<dots> \<le> 2 * (n div 2)" using a by simp
    also have "\<dots> \<le> n" by simp
    finally have lo: "2 ^ (bitlen n - 1) \<le> n" .
    have "n < 2 * (n div 2) + 2" by presburger
    also have "\<dots> \<le> 2 * 2 ^ bitlen (n div 2)" using b by simp
    finally have "n < 2 ^ bitlen n" by (simp add: bl)
    with lo show ?thesis by simp
  qed
qed

lemma roundHalfEven_spec:
  assumes "0 < b"
  shows "2 * (roundHalfEven a b * b) \<le> 2 * a + b \<and> 2 * a \<le> 2 * (roundHalfEven a b * b) + b \<and>
    (2 * (roundHalfEven a b * b) = 2 * a + b \<longrightarrow> even (roundHalfEven a b)) \<and>
    (2 * a = 2 * (roundHalfEven a b * b) + b \<longrightarrow> even (roundHalfEven a b))"
proof -
  define d where "d = a div b"
  define r where "r = a mod b"
  define P where "P = d * b"
  have a: "a = P + r" by (simp add: P_def d_def r_def)
  have r: "r < b" using assms by (simp add: r_def)
  have q: "roundHalfEven a b = (if 2 * r > b \<or> (2 * r = b \<and> odd d) then d + 1 else d)"
    by (simp add: roundHalfEven_def Let_def d_def r_def)
  consider (up) "2 * r > b" | (tie_up) "2 * r = b" "odd d" | (tie_down) "2 * r = b" "even d"
    | (down) "2 * r < b"
    by linarith
  then show ?thesis
  proof cases
    case up
    then have "roundHalfEven a b * b = P + b" by (simp add: q P_def algebra_simps)
    with up a r show ?thesis by simp
  next
    case tie_up
    then have e: "roundHalfEven a b = d + 1" by (simp add: q)
    then have "roundHalfEven a b * b = P + b" by (simp add: P_def algebra_simps)
    with tie_up a r e show ?thesis by simp
  next
    case tie_down
    then have e: "roundHalfEven a b = d" by (simp add: q)
    then have "roundHalfEven a b * b = P" by (simp add: P_def)
    with tie_down a r e show ?thesis by simp
  next
    case down
    then have e: "roundHalfEven a b = d" by (simp add: q)
    then have "roundHalfEven a b * b = P" by (simp add: P_def)
    with down a r e show ?thesis by simp
  qed
qed

lemma roundHalfEven_scale:
  assumes "0 < c"
  shows "roundHalfEven (a * c) (b * c) = roundHalfEven a b"
proof -
  have d: "(a * c) div (b * c) = a div b" using assms by simp
  have m: "(a * c) mod (b * c) = (a mod b) * c" using assms by simp
  have "2 * (a mod b * c) > b * c \<longleftrightarrow> 2 * (a mod b) > b"
    using assms by (metis mult.assoc mult_less_cancel2)
  moreover have "2 * (a mod b * c) = b * c \<longleftrightarrow> 2 * (a mod b) = b"
    using assms by (metis mult.assoc mult_cancel2 less_numeral_extra(3))
  ultimately show ?thesis
    by (simp add: roundHalfEven_def Let_def d m)
qed

lemma floorLog2_spec:
  assumes "0 < num" "0 < den"
  shows "den * 2 ^ nat (floorLog2 num den) \<le> num * 2 ^ nat (- floorLog2 num den) \<and>
         num * 2 ^ nat (- floorLog2 num den) < 2 * (den * 2 ^ nat (floorLog2 num den))"
proof -
  define a where "a = bitlen num"
  define b where "b = bitlen den"
  have na: "2 ^ (a - 1) \<le> num" "num < 2 ^ a"
    using bitlen_bounds [OF assms(1)] by (simp_all add: a_def)
  have nb: "2 ^ (b - 1) \<le> den" "den < 2 ^ b"
    using bitlen_bounds [OF assms(2)] by (simp_all add: b_def)
  have a1: "a \<ge> 1" using na(2) assms(1) by (cases a) simp_all
  have b1: "b \<ge> 1" using nb(2) assms(2) by (cases b) simp_all
  have pa: "(2::nat) ^ a = 2 * 2 ^ (a - 1)" using a1 by (cases a) simp_all
  have pb: "(2::nat) ^ b = 2 * 2 ^ (b - 1)" using b1 by (cases b) simp_all
  show ?thesis
  proof (cases "b \<le> a")
    case True
    define t where "t = a - b"
    have ab: "a = b + t" using True by (simp add: t_def)
    have k0: "int (bitlen num) - int (bitlen den) = int t"
      using ab by (simp add: a_def b_def)
    have pw: "(2::nat) ^ a = 2 ^ b * 2 ^ t" by (simp add: ab power_add)
    show ?thesis
    proof (cases "den * 2 ^ t \<le> num")
      case T: True
      then have fl: "floorLog2 num den = int t"
        by (simp add: floorLog2_def k0)
      have "num < 2 * 2 ^ (b - 1) * 2 ^ t" using na(2) pw pb by simp
      also have "\<dots> \<le> 2 * den * 2 ^ t" using nb(1) by simp
      finally show ?thesis using T by (simp add: fl)
    next
      case F: False
      then have fl: "floorLog2 num den = int t - 1"
        by (simp add: floorLog2_def k0)
      show ?thesis
      proof (cases t)
        case 0
        have "den < 2 * 2 ^ (a - 1)" using nb(2) pa ab 0 by simp
        also have "\<dots> \<le> 2 * num" using na(1) by simp
        finally show ?thesis using F 0 by (simp add: fl)
      next
        case (Suc t')
        have "2 * (den * 2 ^ t') < 2 * (2 ^ b * 2 ^ t')" using nb(2) by simp
        also have "\<dots> = 2 ^ a" by (simp add: pw Suc)
        also have "\<dots> \<le> 2 * num" using na(1) pa by simp
        finally have "den * 2 ^ t' \<le> num" by simp
        with F Suc show ?thesis by (simp add: fl nat_diff_distrib algebra_simps)
      qed
    qed
  next
    case False
    define t where "t = b - a"
    have ba: "b = a + t" and t1: "t \<ge> 1" using False by (simp_all add: t_def)
    have k0: "int (bitlen num) - int (bitlen den) = - int t"
      using ba by (simp add: a_def b_def)
    have neg: "\<not> (0 \<le> - int t)" using t1 by simp
    have pw: "(2::nat) ^ b = 2 ^ a * 2 ^ t" by (simp add: ba power_add)
    show ?thesis
    proof (cases "den \<le> num * 2 ^ t")
      case T: True
      then have fl: "floorLog2 num den = - int t"
        using neg by (simp add: floorLog2_def k0)
      have "num * 2 ^ t < 2 ^ a * 2 ^ t" using na(2) by simp
      also have "\<dots> = 2 * 2 ^ (b - 1)" using pw pb by simp
      also have "\<dots> \<le> 2 * den" using nb(1) by simp
      finally show ?thesis using T t1 by (simp add: fl)
    next
      case F: False
      then have fl: "floorLog2 num den = - int t - 1"
        using neg by (simp add: floorLog2_def k0)
      have nt: "nat (- (- int t - 1)) = Suc t" by simp
      have nt0: "nat (- int t - 1) = 0" by simp
      have "den < 2 ^ a * 2 ^ t" using nb(2) pw by simp
      also have "\<dots> = 2 ^ (a - 1) * 2 ^ Suc t" using pa by simp
      also have "\<dots> \<le> num * 2 ^ Suc t" using na(1) by simp
      finally have lo: "den \<le> num * 2 ^ Suc t" by simp
      from F have "num * 2 ^ Suc t < 2 * den" by simp
      with lo show ?thesis unfolding fl nt nt0 by simp
    qed
  qed
qed

lemma float64Magnitude_shape:
  assumes pos: "0 < num" "0 < den"
    and k: "k = max (floorLog2 num den) (- 1022)"
    and K: "K = nat (k + 1022)"
  shows "(if 52 - k \<ge> 0 then roundHalfEven (num * 2 ^ nat (52 - k)) den
          else roundHalfEven num (den * 2 ^ nat (- (52 - k)))) =
         roundHalfEven (num * 2 ^ 1074) (den * 2 ^ K)"
    and "num * 2 ^ 1074 < 2 ^ 53 * (den * 2 ^ K)"
    and "K \<ge> 1 \<Longrightarrow> 2 ^ 52 * (den * 2 ^ K) \<le> num * 2 ^ 1074"
proof -
  have kge: "k \<ge> - 1022" using k by simp
  show "(if 52 - k \<ge> 0 then roundHalfEven (num * 2 ^ nat (52 - k)) den
          else roundHalfEven num (den * 2 ^ nat (- (52 - k)))) =
         roundHalfEven (num * 2 ^ 1074) (den * 2 ^ K)"
  proof (cases "52 - k \<ge> 0")
    case True
    have e: "nat (52 - k) + K = 1074" using True kge K by simp
    have "num * 2 ^ 1074 = (num * 2 ^ nat (52 - k)) * 2 ^ K"
      by (simp only: e [symmetric] power_add mult.assoc)
    then show ?thesis
      using True by (simp only: if_True roundHalfEven_scale [of "2 ^ K", simplified])
  next
    case False
    have e: "K = nat (- (52 - k)) + 1074" using False K by simp
    have "den * 2 ^ K = (den * 2 ^ nat (- (52 - k))) * 2 ^ 1074"
      by (simp only: e power_add mult.assoc)
    then show ?thesis
      using False by (simp only: if_False roundHalfEven_scale [of "2 ^ 1074", simplified zero_less_power zero_less_numeral])
  qed
  define k0 where "k0 = floorLog2 num den"
  have spec: "den * 2 ^ nat k0 \<le> num * 2 ^ nat (- k0)"
    "num * 2 ^ nat (- k0) < 2 * (den * 2 ^ nat k0)"
    using floorLog2_spec [OF pos] by (simp_all add: k0_def)
  have range: "num * 2 ^ 1074 < 2 ^ 53 * (den * 2 ^ K) \<and>
    (K \<ge> 1 \<longrightarrow> 2 ^ 52 * (den * 2 ^ K) \<le> num * 2 ^ 1074)"
  proof (cases "k0 \<ge> - 1022")
    case True
    then have kk: "k = k0" using k by (simp add: k0_def)
    show ?thesis
    proof (cases "k0 \<ge> 0")
      case nonneg: True
      define t where "t = nat k0"
      have Kt: "K = t + 1022" using nonneg K kk by (simp add: t_def)
      have s: "den * 2 ^ t \<le> num" "num < 2 * (den * 2 ^ t)"
        using spec nonneg by (simp_all add: t_def)
      have p: "(2::nat) ^ 1074 = 2 ^ 52 * 2 ^ 1022"
        by (simp only: power_add [symmetric]) simp
      have "2 ^ 52 * (den * 2 ^ K) = (den * 2 ^ t) * 2 ^ 1074"
        by (simp only: Kt power_add p) (simp only: mult_ac)
      also have "\<dots> \<le> num * 2 ^ 1074"
        using s(1) by (rule mult_right_mono) simp
      finally have lo: "2 ^ 52 * (den * 2 ^ K) \<le> num * 2 ^ 1074" .
      have "num * 2 ^ 1074 < (2 * (den * 2 ^ t)) * 2 ^ 1074"
        using s(2) by (rule mult_strict_right_mono) simp
      also have "\<dots> = 2 ^ 53 * (den * 2 ^ K)"
        by (simp only: Kt power_add p power_Suc [symmetric, of 2 52]) (simp add: mult_ac)
      finally show ?thesis using lo by simp
    next
      case neg: False
      define j where "j = nat (- k0)"
      have j: "j \<le> 1022" "j + K = 1022" using True neg K kk by (simp_all add: j_def)
      have s: "den \<le> num * 2 ^ j" "num * 2 ^ j < 2 * den"
        using spec neg by (simp_all add: j_def)
      have "j + (52 + K) = 1074" using j(2) by simp
      then have p: "(2::nat) ^ 1074 = 2 ^ j * (2 ^ 52 * 2 ^ K)"
        by (simp only: power_add [symmetric])
      have "2 ^ 52 * (den * 2 ^ K) = den * (2 ^ 52 * 2 ^ K)"
        by (simp only: mult_ac)
      also have "\<dots> \<le> (num * 2 ^ j) * (2 ^ 52 * 2 ^ K)"
        using s(1) by (rule mult_right_mono) simp
      also have "\<dots> = num * 2 ^ 1074"
        by (simp only: p mult.assoc)
      finally have lo: "2 ^ 52 * (den * 2 ^ K) \<le> num * 2 ^ 1074" .
      have "num * 2 ^ 1074 = (num * 2 ^ j) * (2 ^ 52 * 2 ^ K)"
        by (simp only: p mult.assoc)
      also have "\<dots> < (2 * den) * (2 ^ 52 * 2 ^ K)"
        using s(2) by (rule mult_strict_right_mono) simp
      also have "\<dots> = 2 ^ 53 * (den * 2 ^ K)"
        by (simp add: mult_ac)
      finally show ?thesis using lo by simp
    qed
  next
    case False
    then have kk: "k = - 1022" using k by (simp add: k0_def)
    then have K0: "K = 0" using K by simp
    define j where "j = nat (- k0) - 1023"
    have j: "nat (- k0) = j + 1023" "nat k0 = 0" using False by (simp_all add: j_def)
    have s: "num * 2 ^ (j + 1023) < 2 * den" using spec(2) by (simp add: j)
    have "num * 2 ^ 1023 \<le> num * 2 ^ (j + 1023)"
      by (intro mult_left_mono power_increasing) simp_all
    from this s have "num * 2 ^ 1023 < 2 * den" by (rule le_less_trans)
    then have "(num * 2 ^ 1023) * 2 ^ 51 < (2 * den) * 2 ^ 51"
      by (rule mult_strict_right_mono) simp
    moreover have "(num * 2 ^ 1023) * 2 ^ 51 = num * 2 ^ 1074"
      by (simp only: mult.assoc power_add [symmetric]) simp
    moreover have "(2 * den) * 2 ^ 51 \<le> 2 ^ 53 * den" by simp
    ultimately show ?thesis using K0 by simp
  qed
  from range show "num * 2 ^ 1074 < 2 ^ 53 * (den * 2 ^ K)" by simp
  from range show "K \<ge> 1 \<Longrightarrow> 2 ^ 52 * (den * 2 ^ K) \<le> num * 2 ^ 1074" by simp
qed

lemma float64Scaled_rep:
  "f < 2 ^ 52 \<Longrightarrow>
   float64Scaled (E * 2 ^ 52 + f) = (if E = 0 then f else (2 ^ 52 + f) * 2 ^ (E - 1))"
  by (simp add: float64Scaled_def)

lemma float64Scaled_grid:
  assumes "q \<le> 2 ^ 53" "K = 0 \<or> 2 ^ 52 \<le> q"
  shows "float64Scaled (K * 2 ^ 52 + q) = q * 2 ^ K"
proof -
  consider (sub) "q < 2 ^ 52" | (norm) "2 ^ 52 \<le> q" "q < 2 ^ 53" | (carry) "q = 2 ^ 53"
    using assms(1) by linarith
  then show ?thesis
  proof cases
    case sub
    with assms(2) have "K = 0" by simp
    with sub float64Scaled_rep [of q 0] show ?thesis by simp
  next
    case norm
    define f where "f = q - 2 ^ 52"
    have f: "f < 2 ^ 52" "q = 2 ^ 52 + f" using norm by (simp_all add: f_def)
    have e: "K * 2 ^ 52 + q = Suc K * 2 ^ 52 + f" by (simp add: f(2))
    have "float64Scaled (K * 2 ^ 52 + q) = float64Scaled (Suc K * 2 ^ 52 + f)"
      by (simp only: e)
    also have "\<dots> = (2 ^ 52 + f) * 2 ^ K"
      using float64Scaled_rep [OF f(1), of "Suc K"] by simp
    also have "\<dots> = q * 2 ^ K" by (simp only: f(2))
    finally show ?thesis .
  next
    case carry
    have e: "K * 2 ^ 52 + q = Suc (Suc K) * 2 ^ 52 + 0" by (simp add: carry)
    have "float64Scaled (K * 2 ^ 52 + q) = float64Scaled (Suc (Suc K) * 2 ^ 52 + 0)"
      by (simp only: e)
    also have "\<dots> = 2 ^ 52 * 2 ^ Suc K"
      using float64Scaled_rep [of 0 "Suc (Suc K)"] by simp
    also have "\<dots> = q * 2 ^ K" by (simp add: carry)
    finally show ?thesis .
  qed
qed

lemma float64Scaled_Suc: "float64Scaled b < float64Scaled (Suc b)"
proof -
  define E where "E = b div 2 ^ 52"
  define f where "f = b mod 2 ^ 52"
  have b: "b = E * 2 ^ 52 + f" and f: "f < 2 ^ 52" by (simp_all add: E_def f_def)
  show ?thesis
  proof (cases "Suc f < 2 ^ 52")
    case True
    have e: "Suc b = E * 2 ^ 52 + Suc f" by (simp add: b)
    have "float64Scaled (Suc b) = (if E = 0 then Suc f else (2 ^ 52 + Suc f) * 2 ^ (E - 1))"
      unfolding e by (rule float64Scaled_rep [OF True])
    moreover have "float64Scaled b = (if E = 0 then f else (2 ^ 52 + f) * 2 ^ (E - 1))"
      by (subst b) (rule float64Scaled_rep [OF f])
    ultimately show ?thesis by simp
  next
    case False
    with f have f1: "f = 2 ^ 52 - 1" by simp
    have e: "Suc b = Suc E * 2 ^ 52 + 0" by (simp add: b f1)
    have "float64Scaled (Suc b) = float64Scaled (Suc E * 2 ^ 52 + 0)"
      by (simp only: e)
    also have "\<dots> = 2 ^ 52 * 2 ^ E"
      using float64Scaled_rep [of 0 "Suc E"] by simp
    finally have s: "float64Scaled (Suc b) = 2 ^ 52 * 2 ^ E" .
    have o: "float64Scaled b = (if E = 0 then f else (2 ^ 52 + f) * 2 ^ (E - 1))"
      by (subst b) (rule float64Scaled_rep [OF f])
    show ?thesis
    proof (cases E)
      case 0
      with s o f1 show ?thesis by simp
    next
      case (Suc E')
      have "(2 ^ 52 + f) * 2 ^ E' < (2 ^ 53 :: nat) * 2 ^ E'"
        using f1 by (intro mult_strict_right_mono) simp_all
      with s o Suc show ?thesis by simp
    qed
  qed
qed

lemma float64Scaled_strict_mono: "b < b' \<Longrightarrow> float64Scaled b < float64Scaled b'"
  by (rule lift_Suc_mono_less [of float64Scaled]) (rule float64Scaled_Suc)

lemma float64Scaled_mono: "b \<le> b' \<Longrightarrow> float64Scaled b \<le> float64Scaled b'"
  using float64Scaled_strict_mono [of b b'] by (cases "b = b'") auto

lemma rounding_range:
  assumes W: "0 < W"
    and q: "q = roundHalfEven N W"
    and up: "N < 2 ^ 53 * W"
    and lo: "(K::nat) \<ge> 1 \<longrightarrow> 2 ^ 52 * W \<le> N"
  shows "q \<le> 2 ^ 53" and "K = 0 \<or> 2 ^ 52 \<le> q"
proof -
  define QW where "QW = q * W"
  note r = roundHalfEven_spec [OF W, of N, folded q, folded QW_def]
  show "q \<le> 2 ^ 53"
  proof (rule ccontr)
    assume "\<not> q \<le> 2 ^ 53"
    then have "2 ^ 53 + 1 \<le> q" by simp
    then have "(2 ^ 53 + 1) * W \<le> QW" unfolding QW_def by (rule mult_right_mono) simp
    with r up W show False by simp
  qed
  show "K = 0 \<or> 2 ^ 52 \<le> q"
  proof (rule ccontr)
    assume a: "\<not> (K = 0 \<or> 2 ^ 52 \<le> q)"
    then have "q \<le> 2 ^ 52 - 1" by simp
    then have "QW \<le> (2 ^ 52 - 1) * W" unfolding QW_def by (rule mult_right_mono) simp
    moreover have "2 ^ 52 * W \<le> N" using a lo by auto
    ultimately show False using r W by simp
  qed
qed

lemma rounding_nearest:
  assumes den: "0 < den"
    and q: "q = roundHalfEven N (den * 2 ^ K)"
    and up: "N < 2 ^ 53 * (den * 2 ^ K)"
    and lo: "K \<ge> 1 \<longrightarrow> 2 ^ 52 * (den * 2 ^ K) \<le> N"
  shows "\<bar>int (float64Scaled (K * 2 ^ 52 + q) * den) - int N\<bar>
           \<le> \<bar>int (float64Scaled b' * den) - int N\<bar> \<and>
         (b' \<noteq> K * 2 ^ 52 + q \<and>
          \<bar>int (float64Scaled b' * den) - int N\<bar> =
            \<bar>int (float64Scaled (K * 2 ^ 52 + q) * den) - int N\<bar> \<longrightarrow> even q)"
proof -
  define W where "W = den * 2 ^ K"
  define QW where "QW = q * W"
  define B where "B = K * 2 ^ 52 + q"
  define X where "X = float64Scaled b' * den"
  have W: "0 < W" using den by (simp add: W_def)
  note r = roundHalfEven_spec [OF W, of N, folded q [folded W_def], folded QW_def]
  note qr = rounding_range [OF W q [folded W_def] up [folded W_def] lo [folded W_def]]
  have SB: "float64Scaled B * den = QW"
    unfolding B_def using float64Scaled_grid [OF qr] by (simp add: QW_def W_def)
  have goal: "\<bar>int QW - int N\<bar> \<le> \<bar>int X - int N\<bar> \<and>
    (b' \<noteq> B \<and> \<bar>int X - int N\<bar> = \<bar>int QW - int N\<bar> \<longrightarrow> even q)"
  proof -
    consider (eq) "b' = B" | (above) "B < b'" | (below) "b' < B" by linarith
    then show ?thesis
    proof cases
      case eq
      then show ?thesis using SB by (simp add: X_def)
    next
      case above
      then have "float64Scaled (Suc B) \<le> float64Scaled b'"
        by (intro float64Scaled_mono) simp
      moreover have "(q + 1) * 2 ^ K \<le> float64Scaled (Suc B)"
      proof (cases "q < 2 ^ 53")
        case True
        have e: "Suc B = K * 2 ^ 52 + (q + 1)" by (simp add: B_def)
        have "float64Scaled (Suc B) = (q + 1) * 2 ^ K"
          unfolding e using True qr(2) by (intro float64Scaled_grid) auto
        then show ?thesis by simp
      next
        case False
        with qr(1) have q53: "q = 2 ^ 53" by simp
        have e: "Suc B = Suc K * 2 ^ 52 + (2 ^ 52 + 1)" by (simp add: B_def q53)
        have "float64Scaled (Suc B) = (2 ^ 52 + 1) * 2 ^ Suc K"
          unfolding e by (intro float64Scaled_grid) simp_all
        then show ?thesis by (simp add: q53)
      qed
      ultimately have "(q + 1) * 2 ^ K \<le> float64Scaled b'" by (rule order_trans [rotated])
      then have "((q + 1) * 2 ^ K) * den \<le> X"
        unfolding X_def by (rule mult_right_mono) simp
      moreover have "((q + 1) * 2 ^ K) * den = QW + W"
        by (simp add: QW_def W_def algebra_simps)
      ultimately have "QW + W \<le> X" by linarith
      with r W show ?thesis by auto
    next
      case below
      then have B1: "b' \<le> B - 1" "0 < B" by simp_all
      then have m: "float64Scaled b' \<le> float64Scaled (B - 1)"
        by (intro float64Scaled_mono)
      show ?thesis
      proof (cases "K \<ge> 1 \<and> q = 2 ^ 52")
        case True
        then obtain K' where K': "K = Suc K'" by (cases K) auto
        define W' where "W' = den * 2 ^ K'"
        have WW: "W = 2 * W'" by (simp add: W_def W'_def K')
        have e: "B - 1 = K' * 2 ^ 52 + (2 ^ 53 - 1)" using True by (simp add: B_def K')
        have "float64Scaled (B - 1) = (2 ^ 53 - 1) * 2 ^ K'"
          unfolding e by (intro float64Scaled_grid) simp_all
        with m have "float64Scaled b' * den \<le> ((2 ^ 53 - 1) * 2 ^ K') * den"
          by (intro mult_right_mono) simp_all
        moreover have "((2 ^ 53 - 1) * 2 ^ K') * den + W' = QW"
          using True by (simp add: QW_def W_def W'_def K' algebra_simps)
        ultimately have x: "X + W' \<le> QW" unfolding X_def by linarith
        have "2 ^ 52 * W \<le> N" using lo True by (simp add: W_def)
        then have "QW \<le> N" using True by (simp add: QW_def)
        moreover have "0 < W'" using den by (simp add: W'_def)
        ultimately show ?thesis using x r WW by auto
      next
        case False
        have q0: "0 < q"
        proof (rule ccontr)
          assume "\<not> 0 < q"
          with qr(2) have "q = 0" "K = 0" by simp_all
          with B1(2) show False by (simp add: B_def)
        qed
        have e: "B - 1 = K * 2 ^ 52 + (q - 1)" using q0 by (simp add: B_def)
        have "float64Scaled (B - 1) = (q - 1) * 2 ^ K"
          unfolding e using False qr q0 by (intro float64Scaled_grid) auto
        with m have "float64Scaled b' * den \<le> ((q - 1) * 2 ^ K) * den"
          by (intro mult_right_mono) simp_all
        moreover have "((q - 1) * 2 ^ K) * den + W = QW"
          using q0 by (simp add: QW_def W_def algebra_simps)
        ultimately have "X + W \<le> QW" unfolding X_def by linarith
        with r W show ?thesis by auto
      qed
    qed
  qed
  then show ?thesis unfolding X_def SB [symmetric] B_def .
qed

lemma rounding_overflow:
  assumes den: "0 < den"
    and q: "q = roundHalfEven N (den * 2 ^ K)"
    and up: "N < 2 ^ 53 * (den * 2 ^ K)"
    and lo: "K \<ge> 1 \<longrightarrow> 2 ^ 52 * (den * 2 ^ K) \<le> N"
  shows "2047 * 2 ^ 52 \<le> K * 2 ^ 52 + q \<longleftrightarrow> den * ((2 ^ 54 - 1) * 2 ^ 2045) \<le> 2 * N"
proof -
  define W where "W = den * 2 ^ K"
  define QW where "QW = q * W"
  define V where "V = den * 2 ^ 2045"
  have W: "0 < W" using den by (simp add: W_def)
  have V: "0 < V" using den by (simp add: V_def)
  note r = roundHalfEven_spec [OF W, of N, folded q [folded W_def], folded QW_def]
  note qr = rounding_range [OF W q [folded W_def] up [folded W_def] lo [folded W_def]]
  have rhs: "den * ((2 ^ 54 - 1) * 2 ^ 2045) = (2 ^ 54 - 1) * V"
    by (simp only: V_def mult_ac)
  consider (small) "K \<le> 2044" | (edge) "K = 2045" | (large) "2046 \<le> K" by linarith
  then show ?thesis
  proof cases
    case small
    then have "K * 2 ^ 52 \<le> 2044 * (2 ^ 52 :: nat)" by (rule mult_right_mono) simp
    with qr(1) have l: "\<not> 2047 * 2 ^ 52 \<le> K * 2 ^ 52 + q" by simp
    have "(2::nat) ^ K \<le> 2 ^ 2044" using small by (intro power_increasing) simp_all
    then have "den * 2 ^ K \<le> den * 2 ^ 2044" by (rule mult_left_mono) simp
    then have "2 * W \<le> den * (2 * 2 ^ 2044)" by (simp only: W_def mult_ac)
    also have "\<dots> = V" by (simp only: V_def power_Suc [symmetric]) simp
    finally have "2 * W \<le> V" .
    with up [folded W_def] V have "2 * N < (2 ^ 54 - 1) * V" by simp
    with l show ?thesis unfolding rhs by simp
  next
    case edge
    have WV: "W = V" by (simp add: W_def V_def edge)
    have l: "2047 * 2 ^ 52 \<le> K * 2 ^ 52 + q \<longleftrightarrow> q = 2 ^ 53"
      using qr(1) by (simp add: edge)
    show ?thesis
    proof (cases "q = 2 ^ 53")
      case True
      then have "QW = 2 ^ 53 * V" by (simp add: QW_def WV)
      with r WV have "(2 ^ 54 - 1) * V \<le> 2 * N" by simp
      with True l show ?thesis unfolding rhs by simp
    next
      case False
      with qr(1) have qle: "q \<le> 2 ^ 53 - 1" by simp
      then have m: "QW \<le> (2 ^ 53 - 1) * V" unfolding QW_def WV by (rule mult_right_mono) simp
      have "\<not> (2 ^ 54 - 1) * V \<le> 2 * N"
      proof
        assume a: "(2 ^ 54 - 1) * V \<le> 2 * N"
        with m r WV have e: "QW = (2 ^ 53 - 1) * V" "2 * N = 2 * QW + W" by simp_all
        from e(1) V have "q = 2 ^ 53 - 1" by (simp add: QW_def WV)
        moreover from e(2) r have "even q" by simp
        ultimately show False by simp
      qed
      with False l show ?thesis unfolding rhs by simp
    qed
  next
    case large
    then have k1: "K \<ge> 1" by simp
    with qr(2) have q52: "2 ^ 52 \<le> q" by simp
    have "2046 * (2 ^ 52 :: nat) \<le> K * 2 ^ 52" using large by (rule mult_right_mono) simp
    with q52 have l: "2047 * 2 ^ 52 \<le> K * 2 ^ 52 + q" by simp
    have "(2::nat) ^ 2046 \<le> 2 ^ K" using large by (intro power_increasing) simp_all
    then have "den * 2 ^ 2046 \<le> den * 2 ^ K" by (rule mult_left_mono) simp
    moreover have "den * 2 ^ 2046 = 2 * V"
      by (simp only: V_def) simp
    ultimately have "2 * V \<le> W" by (simp only: W_def)
    moreover have "2 ^ 52 * W \<le> N" using lo k1 by (simp add: W_def)
    ultimately have "(2 ^ 54 - 1) * V \<le> 2 * N" by simp
    with l show ?thesis unfolding rhs by simp
  qed
qed

lemma beyondBinary64_iff:
  "beyondBinary64 num den \<longleftrightarrow> den * ((2 ^ 54 - 1) * 2 ^ 2045) \<le> 2 * (num * 2 ^ 1074)"
proof -
  have "float64Scaled (float64Inf - 1) + float64Scaled float64Inf = (2 ^ 54 - 1) * 2 ^ 2045"
    by (simp add: float64Scaled_def float64Inf_def)
  then show ?thesis by (simp only: beyondBinary64_def)
qed

lemma decimalRatio_pos:
  assumes "decimalRatio m e = (num, den)"
  shows "0 < den" and "0 < m \<Longrightarrow> 0 < num" and "m = 0 \<Longrightarrow> num = 0"
  using assms by (auto simp: decimalRatio_def split: if_splits)

lemma float64Magnitude_rounding:
  assumes "m \<noteq> 0" and dr: "decimalRatio m e = (num, den)"
  shows "\<exists>K. float64Magnitude m e = K * 2 ^ 52 + roundHalfEven (num * 2 ^ 1074) (den * 2 ^ K) \<and>
             num * 2 ^ 1074 < 2 ^ 53 * (den * 2 ^ K) \<and>
             (K \<ge> 1 \<longrightarrow> 2 ^ 52 * (den * 2 ^ K) \<le> num * 2 ^ 1074)"
proof -
  have den: "0 < den" and num: "0 < num" using decimalRatio_pos [OF dr] assms(1) by simp_all
  have nd: "num = (if e \<ge> 0 then m * 10 ^ nat e else m)"
    "den = (if e \<ge> 0 then 1 else 10 ^ nat (- e))"
    using dr by (auto simp: decimalRatio_def split: if_splits)
  define k where "k = max (floorLog2 num den) (- 1022)"
  define K where "K = nat (k + 1022)"
  note sh = float64Magnitude_shape [OF num den k_def K_def]
  have "float64Magnitude m e = K * 2 ^ 52 + roundHalfEven (num * 2 ^ 1074) (den * 2 ^ K)"
    using assms(1) sh(1)
    by (simp only: float64Magnitude_def nd [symmetric] Let_def k_def [symmetric]
        K_def [symmetric] if_False)
  with sh(2,3) show ?thesis by blast
qed

lemma float64Magnitude_correct:
  assumes dr: "decimalRatio m e = (num, den)"
  shows "(float64Inf \<le> float64Magnitude m e \<longleftrightarrow> beyondBinary64 num den) \<and>
         (float64Magnitude m e < float64Inf \<longrightarrow> nearestBinary64 num den (float64Magnitude m e))"
proof (cases "m = 0")
  case True
  have den: "0 < den" and num: "num = 0" using decimalRatio_pos [OF dr] True by simp_all
  have "\<not> beyondBinary64 num den"
    using den by (simp only: beyondBinary64_iff num) simp
  moreover have "nearestBinary64 num den 0"
    by (simp add: nearestBinary64_def binary64Distance_def num float64Scaled_def float64Inf_def)
  ultimately show ?thesis using True by (simp add: float64Magnitude_def float64Inf_def)
next
  case False
  have den: "0 < den" using decimalRatio_pos [OF dr] by simp
  define N where "N = num * 2 ^ 1074"
  from float64Magnitude_rounding [OF False dr] obtain K where
    fm: "float64Magnitude m e = K * 2 ^ 52 + roundHalfEven N (den * 2 ^ K)"
    and up: "N < 2 ^ 53 * (den * 2 ^ K)"
    and lo: "K \<ge> 1 \<longrightarrow> 2 ^ 52 * (den * 2 ^ K) \<le> N"
    unfolding N_def by blast
  define q where "q = roundHalfEven N (den * 2 ^ K)"
  have ov: "float64Inf \<le> float64Magnitude m e \<longleftrightarrow> beyondBinary64 num den"
    unfolding fm beyondBinary64_iff N_def [symmetric] q_def [symmetric]
    using rounding_overflow [OF den q_def up lo] by (simp add: float64Inf_def)
  have ev: "even (K * 2 ^ 52 + q) \<longleftrightarrow> even q" by simp
  have near: "nearestBinary64 num den (K * 2 ^ 52 + q)" if "K * 2 ^ 52 + q < float64Inf"
    unfolding nearestBinary64_def binary64Distance_def N_def [symmetric] ev
    using that rounding_nearest [OF den q_def up lo] by blast
  from ov near show ?thesis by (simp add: fm q_def)
qed

lemma float64Magnitude_underflow:
  assumes "m \<noteq> 0" and dr: "decimalRatio m e = (num, den)"
    and tiny: "2 * (num * 2 ^ 1074) < den"
  shows "float64Magnitude m e = 0"
proof -
  define N where "N = num * 2 ^ 1074"
  from float64Magnitude_rounding [OF assms(1) dr] obtain K where
    fm: "float64Magnitude m e = K * 2 ^ 52 + roundHalfEven N (den * 2 ^ K)"
    and lo: "K \<ge> 1 \<longrightarrow> 2 ^ 52 * (den * 2 ^ K) \<le> N"
    unfolding N_def by blast
  have K: "K = 0"
  proof (rule ccontr)
    assume "K \<noteq> 0"
    define W where "W = den * 2 ^ K"
    from \<open>K \<noteq> 0\<close> lo have "2 ^ 52 * W \<le> N" by (simp add: W_def)
    moreover have "den \<le> W" by (simp add: W_def)
    ultimately have "den \<le> N" by simp
    with tiny show False by (simp add: N_def)
  qed
  have small: "2 * N < den" using tiny by (simp only: N_def)
  then have "N div den = 0" "N mod den = N" by simp_all
  with small have "roundHalfEven N den = 0"
    by (simp add: roundHalfEven_def Let_def)
  with fm K show ?thesis by simp
qed

lemma nearestBinary64_unique:
  assumes "0 < den" "nearestBinary64 num den b1" "nearestBinary64 num den b2"
  shows "b1 = b2"
proof -
  have aux: False if n1: "nearestBinary64 num den c1" and n2: "nearestBinary64 num den c2"
    and lt: "c1 < c2" for c1 c2
  proof -
    define N where "N = num * 2 ^ 1074"
    define D where "D = (\<lambda>b. \<bar>int (float64Scaled b * den) - int N\<bar>)"
    have D: "binary64Distance num den b = D b" for b
      by (simp add: binary64Distance_def D_def N_def)
    from n1 n2 have fin: "c1 < float64Inf" "c2 < float64Inf"
      by (simp_all add: nearestBinary64_def)
    from n1 n2 fin have eq: "D c1 = D c2"
      unfolding nearestBinary64_def D by (meson order_antisym)
    from n1 fin(2) lt eq have e1: "even c1"
      unfolding nearestBinary64_def D by (metis less_irrefl)
    from n2 fin(1) lt eq have e2: "even c2"
      unfolding nearestBinary64_def D by (metis less_irrefl)
    from e1 e2 lt have mid: "Suc c1 < c2" 
      by (metis Suc_lessI even_Suc)
    then have fm: "Suc c1 < float64Inf" using fin(2) by simp
    from n1 fm have le: "D c1 \<le> D (Suc c1)"
      unfolding nearestBinary64_def D by blast
    have "float64Scaled c1 < float64Scaled (Suc c1)" by (rule float64Scaled_Suc)
    then have a: "float64Scaled c1 * den < float64Scaled (Suc c1) * den"
      using assms(1) by simp
    have "float64Scaled (Suc c1) < float64Scaled c2" using mid by (rule float64Scaled_strict_mono)
    then have b: "float64Scaled (Suc c1) * den < float64Scaled c2 * den"
      using assms(1) by simp
    from a b eq le show False unfolding D_def by linarith
  qed
  show ?thesis
    using aux [of b1 b2] aux [of b2 b1] assms(2,3) by (meson linorder_neqE_nat)
qed

subsection \<open>Valid JSON numbers against the reference decoder\<close>

lemma of_char_digit_eq:
  "(of_char c = (48::nat)) = (c = CHR ''0'')" "(of_char c = (49::nat)) = (c = CHR ''1'')"
  "(of_char c = (50::nat)) = (c = CHR ''2'')" "(of_char c = (51::nat)) = (c = CHR ''3'')"
  "(of_char c = (52::nat)) = (c = CHR ''4'')" "(of_char c = (53::nat)) = (c = CHR ''5'')"
  "(of_char c = (54::nat)) = (c = CHR ''6'')" "(of_char c = (55::nat)) = (c = CHR ''7'')"
  "(of_char c = (56::nat)) = (c = CHR ''8'')" "(of_char c = (57::nat)) = (c = CHR ''9'')"
proof -
  have e: "(of_char c = (of_char d :: nat)) = (c = d)" for d
    by (rule of_char_eq_iff)
  show "(of_char c = (48::nat)) = (c = CHR ''0'')" using e [of "CHR ''0''"] by simp
  show "(of_char c = (49::nat)) = (c = CHR ''1'')" using e [of "CHR ''1''"] by simp
  show "(of_char c = (50::nat)) = (c = CHR ''2'')" using e [of "CHR ''2''"] by simp
  show "(of_char c = (51::nat)) = (c = CHR ''3'')" using e [of "CHR ''3''"] by simp
  show "(of_char c = (52::nat)) = (c = CHR ''4'')" using e [of "CHR ''4''"] by simp
  show "(of_char c = (53::nat)) = (c = CHR ''5'')" using e [of "CHR ''5''"] by simp
  show "(of_char c = (54::nat)) = (c = CHR ''6'')" using e [of "CHR ''6''"] by simp
  show "(of_char c = (55::nat)) = (c = CHR ''7'')" using e [of "CHR ''7''"] by simp
  show "(of_char c = (56::nat)) = (c = CHR ''8'')" using e [of "CHR ''8''"] by simp
  show "(of_char c = (57::nat)) = (c = CHR ''9'')" using e [of "CHR ''9''"] by simp
qed

lemma isDecDigit_cases:
  assumes "isDecDigit c"
  shows "c = CHR ''0'' \<or> c = CHR ''1'' \<or> c = CHR ''2'' \<or> c = CHR ''3'' \<or> c = CHR ''4'' \<or>
         c = CHR ''5'' \<or> c = CHR ''6'' \<or> c = CHR ''7'' \<or> c = CHR ''8'' \<or> c = CHR ''9''"
proof -
  define n :: nat where "n = of_char c"
  have "48 \<le> n" "n \<le> 57"
    using assms by (simp_all add: isDecDigit_def n_def)
  then have "n = 48 \<or> n = 49 \<or> n = 50 \<or> n = 51 \<or> n = 52 \<or> n = 53 \<or> n = 54 \<or> n = 55 \<or> n = 56 \<or> n = 57"
    by arith
  then show ?thesis
    unfolding n_def of_char_digit_eq .
qed

lemma isDecDigit_isNumberRune: "isDecDigit c \<Longrightarrow> isNumberRune c = 17"
  by (drule isDecDigit_cases, elim disjE)
     (simp_all add: isNumberRune_def isNumberRuneTable_def isPartOfNumberFlag_def isDigitFlag_def)

lemma isDecDigit_digitVal: "isDecDigit c \<Longrightarrow> digitVal c < 10"
  by (drule isDecDigit_cases, elim disjE) (simp_all add: digitVal_def)

lemma isDecDigit_not_mark:
  assumes "isDecDigit c"
  shows "c \<noteq> CHR ''.''" and "c \<noteq> CHR ''-''" and "c \<noteq> CHR ''+''" and "c \<noteq> CHR ''e''"
    and "c \<noteq> CHR ''E''"
  using assms by (auto simp: isDecDigit_def)

lemmas flag_defs = isPartOfNumberFlag_def isFloatOnlyFlag_def isMinusFlag_def isEOVFlag_def
  isDigitFlag_def isMustHaveDigitNext_def

lemma isNumberRune_marks:
  "isNumberRune CHR ''-'' = 37" "isNumberRune CHR ''.'' = 35" "isNumberRune CHR ''+'' = 1"
  "isNumberRune CHR ''e'' = 3" "isNumberRune CHR ''E'' = 3"
  by (simp_all add: isNumberRune_def isNumberRuneTable_def flag_defs)

lemma isEndOfValue_isNumberRune: "isEndOfValue c \<Longrightarrow> isNumberRune c = isEOVFlag"
  unfolding isEndOfValue_def
  by (simp add: isNumberRune_def isNumberRuneTable_def flag_defs) (elim disjE; simp)

lemma scan_end: "isEndOfValue c \<Longrightarrow> scanNumber (c # r) i f p = Some (f, p)"
  by (simp add: isEndOfValue_isNumberRune Let_def) (simp add: flag_defs)

lemma scan_digit_step:
  "isDecDigit d \<Longrightarrow> scanNumber (d # r) i f p = scanNumber r (Suc i) (f OR 17) (Suc i)"
  by (simp add: isDecDigit_isNumberRune Let_def flag_defs)

lemma scan_digits:
  assumes "list_all isDecDigit ds" "ds \<noteq> []"
  shows "scanNumber (ds @ r) i f p = scanNumber r (i + length ds) (f OR 17) (i + length ds)"
  using assms
proof (induction ds arbitrary: i f p)
  case Nil
  then show ?case by simp
next
  case (Cons d ds)
  show ?case
  proof (cases "ds = []")
    case True
    with Cons.prems show ?thesis by (simp add: scan_digit_step del: scanNumber.simps)
  next
    case False
    with Cons show ?thesis by (simp add: scan_digit_step or.assoc del: scanNumber.simps)
  qed
qed

lemma hd_digit_flag:
  assumes "list_all isDecDigit ds" "ds \<noteq> []"
  shows "ds @ r \<noteq> [] \<and> isNumberRune (hd (ds @ r)) = 17"
  using assms by (cases ds) (simp_all add: isDecDigit_isNumberRune)

lemma scan_minus_digits:
  assumes "list_all isDecDigit ds" "ds \<noteq> []"
  shows "scanNumber (CHR ''-'' # ds @ r) i f p =
         scanNumber r (Suc i + length ds) (f OR 53) (Suc i + length ds)"
  using hd_digit_flag [OF assms, of r] scan_digits [OF assms, of r "Suc i" "f OR 37" "Suc i"]
  by (simp add: isNumberRune_marks Let_def flag_defs or.assoc)

lemma scan_point_digits:
  assumes "list_all isDecDigit ds" "ds \<noteq> []"
  shows "scanNumber (CHR ''.'' # ds @ r) i f p =
         scanNumber r (Suc i + length ds) (f OR 51) (Suc i + length ds)"
  using hd_digit_flag [OF assms, of r] scan_digits [OF assms, of r "Suc i" "f OR 35" "Suc i"]
  by (simp add: isNumberRune_marks Let_def flag_defs or.assoc)

lemma scan_mark_steps:
  "scanNumber (CHR ''e'' # r) i f p = scanNumber r (Suc i) (f OR 3) (Suc i)"
  "scanNumber (CHR ''E'' # r) i f p = scanNumber r (Suc i) (f OR 3) (Suc i)"
  "scanNumber (CHR ''+'' # r) i f p = scanNumber r (Suc i) (f OR 1) (Suc i)"
  by (simp_all add: isNumberRune_marks Let_def flag_defs)

lemma scan_sign_int:
  assumes "list_all isDecDigit ds" "ds \<noteq> []"
  shows "scanNumber ((if neg then ''-'' else []) @ ds @ r) 0 0 0 =
         scanNumber r (length ((if neg then ''-'' else []) @ ds)) (if neg then 53 else 17)
           (length ((if neg then ''-'' else []) @ ds))"
  using scan_minus_digits [OF assms, of r 0 0 0] scan_digits [OF assms, of r 0 0 0]
  by simp

lemma scan_frac:
  assumes "list_all isDecDigit fs"
  shows "scanNumber ((if fs = [] then [] else CHR ''.'' # fs) @ r) i f i =
         scanNumber r (i + length (if fs = [] then [] else CHR ''.'' # fs))
           (f OR (if fs = [] then 0 else 51))
           (i + length (if fs = [] then [] else CHR ''.'' # fs))"
  using scan_point_digits [OF assms, of r i f i]
  by simp

lemma scan_exp:
  assumes "list_all isDecDigit ds"
    and "if mark = [] then ds = []
         else mark \<in> set [''e'', ''E'', ''e+'', ''E+'', ''e-'', ''E-''] \<and> ds \<noteq> []"
  shows "scanNumber (mark @ ds @ r) i f i =
         scanNumber r (i + length (mark @ ds))
           (f OR (if mark = [] then 0 else if CHR ''-'' \<in> set mark then 55 else 19))
           (i + length (mark @ ds))"
proof (cases "mark = []")
  case True
  with assms show ?thesis by simp
next
  case False
  with assms have ds: "ds \<noteq> []"
    and mark: "mark = ''e'' \<or> mark = ''E'' \<or> mark = ''e+'' \<or> mark = ''E+'' \<or> mark = ''e-'' \<or> mark = ''E-''"
    by auto
  note d = scan_digits [OF assms(1) ds] scan_minus_digits [OF assms(1) ds]
  from mark show ?thesis
    by (elim disjE) (simp_all add: scan_mark_steps d or.assoc del: scanNumber.simps)
qed

lemma scan_numberText:
  assumes "wellFormed j" "isEndOfValue c"
  shows "scanNumber (numberText j @ c # rest) 0 0 0 =
    Some ((if negative j then 53 else 17) OR (if fracPart j = [] then 0 else 51) OR
          (if expMark j = [] then 0 else if CHR ''-'' \<in> set (expMark j) then 55 else 19),
          length (numberText j))"
proof -
  let ?S = "(if negative j then ''-'' else [])"
  let ?F = "(if fracPart j = [] then [] else CHR ''.'' # fracPart j)"
  let ?X = "expMark j @ expDigits j"
  have wf: "list_all isDecDigit (intPart j)" "intPart j \<noteq> []" "list_all isDecDigit (fracPart j)"
    "list_all isDecDigit (expDigits j)"
    "if expMark j = [] then expDigits j = []
     else expMark j \<in> set [''e'', ''E'', ''e+'', ''E+'', ''e-'', ''E-''] \<and> expDigits j \<noteq> []"
    using assms(1) by (auto simp: wellFormed_def split: if_splits)
  have t: "numberText j @ c # rest = ?S @ intPart j @ (?F @ (expMark j @ expDigits j @ (c # rest)))"
    by (simp add: numberText_def)
  have n: "length (numberText j) = length (?S @ intPart j) + length ?F + length ?X"
    by (simp add: numberText_def)
  show ?thesis
    unfolding t n
    by (simp only: scan_sign_int [OF wf(1,2)] scan_frac [OF wf(3)] scan_exp [OF wf(4,5)]
          scan_end [OF assms(2)] or.assoc add.assoc)
qed

lemma decimalAcc_mono: "n \<le> decimalAcc n ds"
proof (induction ds arbitrary: n)
  case Nil
  then show ?case by simp
next
  case (Cons c ds)
  have "n \<le> n * 10 + digitVal c" by simp
  also have "\<dots> \<le> decimalAcc (n * 10 + digitVal c) ds" by (rule Cons.IH)
  finally show ?case by simp
qed

lemma parseUintLoop_correct:
  assumes "list_all isDecDigit ds"
  shows "parseUintLoop ds n =
    (if decimalAcc (unat n) ds < 2 ^ 64 then Ok (word_of_nat (decimalAcc (unat n) ds))
     else ErrRange)"
  using assms
proof (induction ds arbitrary: n)
  case Nil
  have "unat n < 2 ^ 64" using unsigned_less [of n, where 'a = nat] by simp
  then show ?case by simp
next
  case (Cons c cs)
  then have dig: "isDecDigit c" and rest: "list_all isDecDigit cs" by simp_all
  define d where "d = digitVal c"
  have d: "d < 10" unfolding d_def by (rule isDecDigit_digitVal [OF dig])
  show ?case
  proof (cases "n \<ge> uintCutoff")
    case True
    then have "unat n \<ge> 1844674407370955162"
      by (simp add: uintCutoff_def word_le_nat_alt)
    then have "unat n * 10 + d \<ge> 2 ^ 64" by simp
    then have "decimalAcc (unat n * 10 + d) cs \<ge> 2 ^ 64"
      using decimalAcc_mono [of "unat n * 10 + d" cs] by linarith
    with True dig show ?thesis by (simp add: d_def)
  next
    case False
    then have small: "unat n < 1844674407370955162"
      by (simp add: uintCutoff_def word_le_nat_alt)
    then have n10: "unat (n * 10) = unat n * 10"
      by (simp add: unat_word_ariths)
    have ud: "unat (word_of_nat d :: 64 word) = d"
      using d by (simp add: unat_of_nat)
    have sum: "unat (n * 10 + word_of_nat d) = (unat n * 10 + d) mod 2 ^ 64"
      using unat_word_ariths(1) [of "n * 10" "word_of_nat d"] by (simp only: n10 ud) simp
    show ?thesis
    proof (cases "unat n * 10 + d < 2 ^ 64")
      case True
      then have u1: "unat (n * 10 + word_of_nat d) = unat n * 10 + d"
        using sum by simp
      then have nowrap: "\<not> (n * 10 + word_of_nat d < n * 10)"
        by (simp add: word_less_nat_alt n10)
      have nomax: "\<not> (n * 10 + word_of_nat d > uintMaxVal)"
        using True by (simp add: uintMaxVal_def word_less_nat_alt u1)
      from False dig nowrap nomax Cons.IH [OF rest, of "n * 10 + word_of_nat d"] u1
      show ?thesis by (simp add: d_def Let_def)
    next
      case over: False
      then have "unat n * 10 + d < 2 * 2 ^ 64" using small d by simp
      with over sum have u2: "unat (n * 10 + word_of_nat d) = unat n * 10 + d - 2 ^ 64"
        by (simp add: mod_if)
      have "unat n * 10 + d - 2 ^ 64 < unat n * 10"
        using d over by simp
      then have wrap: "n * 10 + word_of_nat d < n * 10"
        by (simp only: word_less_nat_alt n10 u2)
      have "decimalAcc (unat n * 10 + d) cs \<ge> 2 ^ 64"
        using decimalAcc_mono [of "unat n * 10 + d" cs] over by linarith
      with False dig wrap show ?thesis by (simp add: d_def Let_def)
    qed
  qed
qed

lemma hd_digit_not_sign:
  assumes "list_all isDecDigit ds" "ds \<noteq> []"
  shows "hd (ds @ r) \<noteq> CHR ''-''" "hd (ds @ r) \<noteq> CHR ''+''" "isDecDigit (hd (ds @ r))"
  using assms by (cases ds; simp add: isDecDigit_not_mark)+

lemma ParseUint_digits:
  assumes "list_all isDecDigit ds" "ds \<noteq> []"
  shows "ParseUint ds =
    (if decimalValue ds < 2 ^ 64 then Ok (word_of_nat (decimalValue ds)) else ErrRange)"
  using assms parseUintLoop_correct [OF assms(1), of 0]
  by (simp add: ParseUint_def decimalValue_def)

lemma ParseInt_signed_digits:
  assumes "list_all isDecDigit ds" "ds \<noteq> []"
  shows "ParseInt ((if neg then ''-'' else []) @ ds) =
    (if \<not> neg \<and> decimalValue ds < 2 ^ 63 then Ok (word_of_nat (decimalValue ds))
     else if neg \<and> decimalValue ds \<le> 2 ^ 63 then Ok (- word_of_nat (decimalValue ds))
     else ErrRange)"
proof -
  define n where "n = decimalValue ds"
  have u: "ParseUint ds = (if n < 2 ^ 64 then Ok (word_of_nat n) else ErrRange)"
    unfolding n_def by (rule ParseUint_digits [OF assms])
  have strip: "ParseInt ((if neg then ''-'' else []) @ ds) =
    (case ParseUint ds of
       ErrSyntax \<Rightarrow> ErrSyntax
     | r \<Rightarrow> (let un = (case r of Ok n \<Rightarrow> n | _ \<Rightarrow> uintMaxVal) in
              if \<not> neg \<and> un \<ge> intCutoff then ErrRange
              else if neg \<and> un > intCutoff then ErrRange
              else Ok (if neg then - un else un)))"
    using assms hd_digit_not_sign [OF assms, of "[]"]
    by (cases neg) (simp_all add: ParseInt_def Let_def split: conv.splits)
  show ?thesis
  proof (cases "n < 2 ^ 64")
    case True
    then have un: "unat (word_of_nat n :: 64 word) = n"
      by (simp add: unat_of_nat)
    have ge: "(word_of_nat n :: 64 word) \<ge> 9223372036854775808 \<longleftrightarrow> n \<ge> 2 ^ 63"
      by (simp add: word_le_nat_alt un)
    have gt: "(word_of_nat n :: 64 word) > 9223372036854775808 \<longleftrightarrow> n > 2 ^ 63"
      by (simp add: word_less_nat_alt un)
    from True show ?thesis
      unfolding strip u n_def [symmetric] intCutoff_def
      by (auto simp: ge gt Let_def)
  next
    case False
    then show ?thesis
      unfolding strip u n_def [symmetric]
      by (simp add: Let_def uintMaxVal_def intCutoff_def)
  qed
qed

lemma digitVal_zero: "digitVal CHR ''0'' = 0"
  by (simp add: digitVal_def)

lemma decimalAcc_append: "decimalAcc n (xs @ ys) = decimalAcc (decimalAcc n xs) ys"
  by (induction xs arbitrary: n) simp_all

lemma readMantissa_int_digits:
  assumes "list_all isDecDigit ds" "nd = 0 \<longrightarrow> m = 0"
  shows "\<exists>nd' dp'. readMantissa (ds @ r) False sd nd dp m =
           readMantissa r False (sd \<or> ds \<noteq> []) nd' dp' (decimalAcc m ds) \<and>
           (nd' = 0 \<longrightarrow> decimalAcc m ds = 0)"
  using assms
proof (induction ds arbitrary: sd nd dp m)
  case Nil
  then show ?case by auto
next
  case (Cons c cs)
  then have dig: "isDecDigit c" and rest: "list_all isDecDigit cs" by simp_all
  show ?case
  proof (cases "c = CHR ''0'' \<and> nd = 0")
    case True
    with Cons.prems have m: "m = 0" by simp
    from Cons.IH [OF rest, of nd m True "dp - 1"] Cons.prems(2)
    obtain nd' dp' where "readMantissa (cs @ r) False True nd (dp - 1) m =
        readMantissa r False True nd' dp' (decimalAcc m cs) \<and> (nd' = 0 \<longrightarrow> decimalAcc m cs = 0)"
      by auto
    with True m dig show ?thesis
      by (intro exI [of _ nd'] exI [of _ dp']) (simp add: isDecDigit_not_mark digitVal_zero)
  next
    case False
    from Cons.IH [OF rest, of "nd + 1" "m * 10 + digitVal c" True dp]
    obtain nd' dp' where "readMantissa (cs @ r) False True (nd + 1) dp (m * 10 + digitVal c) =
        readMantissa r False True nd' dp' (decimalAcc (m * 10 + digitVal c) cs) \<and>
        (nd' = 0 \<longrightarrow> decimalAcc (m * 10 + digitVal c) cs = 0)"
      by auto
    with False dig show ?thesis
      by (intro exI [of _ nd'] exI [of _ dp']) (auto simp: isDecDigit_not_mark)
  qed
qed

lemma readMantissa_frac_digits:
  assumes "list_all isDecDigit ds" "nd = 0 \<longrightarrow> m = 0"
  shows "\<exists>nd' dp'. readMantissa (ds @ r) True sd nd dp m =
           readMantissa r True (sd \<or> ds \<noteq> []) nd' dp' (decimalAcc m ds) \<and>
           dp' - int nd' = dp - int nd - int (length ds) \<and>
           (nd' = 0 \<longrightarrow> decimalAcc m ds = 0)"
  using assms
proof (induction ds arbitrary: sd nd dp m)
  case Nil
  then show ?case by auto
next
  case (Cons c cs)
  then have dig: "isDecDigit c" and rest: "list_all isDecDigit cs" by simp_all
  show ?case
  proof (cases "c = CHR ''0'' \<and> nd = 0")
    case True
    with Cons.prems have m: "m = 0" by simp
    from Cons.IH [OF rest, of nd m True "dp - 1"] Cons.prems(2)
    obtain nd' dp' where "readMantissa (cs @ r) True True nd (dp - 1) m =
        readMantissa r True True nd' dp' (decimalAcc m cs) \<and>
        dp' - int nd' = dp - 1 - int nd - int (length cs) \<and> (nd' = 0 \<longrightarrow> decimalAcc m cs = 0)"
      by auto
    with True m dig show ?thesis
      by (intro exI [of _ nd'] exI [of _ dp']) (simp add: isDecDigit_not_mark digitVal_zero)
  next
    case False
    from Cons.IH [OF rest, of "nd + 1" "m * 10 + digitVal c" True dp]
    obtain nd' dp' where "readMantissa (cs @ r) True True (nd + 1) dp (m * 10 + digitVal c) =
        readMantissa r True True nd' dp' (decimalAcc (m * 10 + digitVal c) cs) \<and>
        dp' - int nd' = dp - int (nd + 1) - int (length cs) \<and>
        (nd' = 0 \<longrightarrow> decimalAcc (m * 10 + digitVal c) cs = 0)"
      by auto
    with False dig show ?thesis
      by (intro exI [of _ nd'] exI [of _ dp']) (auto simp: isDecDigit_not_mark)
  qed
qed

lemma readExpDigits_digits:
  assumes "list_all isDecDigit ds" "decimalAcc e ds < 100000"
  shows "readExpDigits ds e = ([], decimalAcc e ds)"
  using assms
proof (induction ds arbitrary: e)
  case Nil
  then show ?case by simp
next
  case (Cons c cs)
  have "e * 10 + digitVal c \<le> decimalAcc (e * 10 + digitVal c) cs"
    by (rule decimalAcc_mono)
  then have "e < 10000" using Cons.prems(2) by simp
  with Cons show ?case by simp
qed

lemma readExpDigits_all: "list_all isDecDigit ds \<Longrightarrow> fst (readExpDigits ds e) = []"
  by (induction ds arbitrary: e) simp_all

lemma readMantissa_stop:
  "r = [] \<or> hd r = CHR ''e'' \<or> hd r = CHR ''E'' \<Longrightarrow>
   readMantissa r a b nd dp m = (r, a, b, nd, dp, m)"
  by (cases r) (auto simp: isDecDigit_def)

lemma readMantissa_numberText:
  assumes "list_all isDecDigit ds" "list_all isDecDigit fs"
    and "X = [] \<or> hd X = CHR ''e'' \<or> hd X = CHR ''E''"
    and d: "ds \<noteq> []"
  shows "\<exists>sawdot nd dp.
    readMantissa (ds @ (if fs = [] then [] else CHR ''.'' # fs) @ X) False False 0 0 0 =
      (X, sawdot, True, nd, dp, decimalValue (ds @ fs)) \<and>
    (if sawdot then dp else int nd) - int nd = - int (length fs)"
proof -
  from readMantissa_int_digits [OF assms(1), of 0 0 "(if fs = [] then [] else CHR ''.'' # fs) @ X" False 0]
  obtain nd1 dp1 where
    a: "readMantissa (ds @ (if fs = [] then [] else CHR ''.'' # fs) @ X) False False 0 0 0 =
        readMantissa ((if fs = [] then [] else CHR ''.'' # fs) @ X) False (ds \<noteq> []) nd1 dp1
          (decimalAcc 0 ds)"
    and inv: "nd1 = 0 \<longrightarrow> decimalAcc 0 ds = 0"
    by auto
  show ?thesis
  proof (cases "fs = []")
    case True
    with a d readMantissa_stop [OF assms(3)] show ?thesis
      by (intro exI [of _ False] exI [of _ nd1] exI [of _ dp1]) (simp add: decimalValue_def)
  next
    case False
    from readMantissa_frac_digits [OF assms(2) inv, of X "ds \<noteq> []" "int nd1"]
    obtain nd2 dp2 where
      b: "readMantissa (fs @ X) True (ds \<noteq> []) nd1 (int nd1) (decimalAcc 0 ds) =
          readMantissa X True (ds \<noteq> [] \<or> fs \<noteq> []) nd2 dp2 (decimalAcc (decimalAcc 0 ds) fs)"
      and c: "dp2 - int nd2 = int nd1 - int nd1 - int (length fs)"
      by auto
    from False a b c d readMantissa_stop [OF assms(3)] show ?thesis
      by (intro exI [of _ True] exI [of _ nd2] exI [of _ dp2])
         (simp add: decimalValue_def decimalAcc_append)
  qed
qed

lemma float64Magnitude_zero: "float64Magnitude 0 e = 0"
  by (simp add: float64Magnitude_def)

lemma readFloat_numberText:
  assumes "wellFormed j"
    and x: "x = snd (readExpDigits (expDigits j) 0)"
  shows "readFloat (numberText j) =
    Some (negative j, decimalValue (intPart j @ fracPart j),
          (if decimalValue (intPart j @ fracPart j) \<noteq> 0
           then (if CHR ''-'' \<in> set (expMark j) then - int x else int x) -
                int (length (fracPart j))
           else 0), [])"
proof -
  let ?F = "(if fracPart j = [] then [] else CHR ''.'' # fracPart j)"
  let ?X = "expMark j @ expDigits j"
  let ?M = "decimalValue (intPart j @ fracPart j)"
  have wf: "list_all isDecDigit (intPart j)" "intPart j \<noteq> []" "list_all isDecDigit (fracPart j)"
    "list_all isDecDigit (expDigits j)"
    using assms(1) by (auto simp: wellFormed_def)
  have marks: "(expMark j = [] \<and> expDigits j = []) \<or>
    (expDigits j \<noteq> [] \<and> (expMark j = ''e'' \<or> expMark j = ''E'' \<or> expMark j = ''e+'' \<or>
       expMark j = ''E+'' \<or> expMark j = ''e-'' \<or> expMark j = ''E-''))"
    using assms(1) by (auto simp: wellFormed_def split: if_splits)
  then have stop: "?X = [] \<or> hd ?X = CHR ''e'' \<or> hd ?X = CHR ''E''"
    by auto
  from readMantissa_numberText [OF wf(1,3) stop wf(2)]
  obtain sawdot nd dp where
    rm: "readMantissa (intPart j @ ?F @ ?X) False False 0 0 0 = (?X, sawdot, True, nd, dp, ?M)"
    and dpnd: "(if sawdot then dp else int nd) - int nd = - int (length (fracPart j))"
    by auto
  have hdI: "hd (intPart j @ ?F @ ?X) \<noteq> CHR ''-''" "hd (intPart j @ ?F @ ?X) \<noteq> CHR ''+''"
    using hd_digit_not_sign [OF wf(1,2)] by simp_all
  have sign: "numberText j \<noteq> []" "(hd (numberText j) = CHR ''-'') = negative j"
    "(if hd (numberText j) = CHR ''+'' \<or> negative j
      then tl (numberText j) else numberText j) = intPart j @ ?F @ ?X"
    using wf(2) hdI by (auto simp: numberText_def)
  have ex: "readExpDigits (expDigits j) 0 = ([], x)"
    using readExpDigits_all [OF wf(4), of 0] x by (cases "readExpDigits (expDigits j) 0") simp
  have x0: "expDigits j = [] \<Longrightarrow> x = 0"
    using x by simp
  have hdE: "expDigits j \<noteq> [] \<Longrightarrow> hd (expDigits j) \<noteq> CHR ''-'' \<and>
      hd (expDigits j) \<noteq> CHR ''+'' \<and> isDecDigit (hd (expDigits j))"
    using hd_digit_not_sign [OF wf(4), of "[]"] by simp
  from marks show ?thesis
  proof (elim disjE conjE)
    assume "expMark j = []" "expDigits j = []"
    with rm dpnd x0 show ?thesis
      by (simp add: readFloat_def sign)
  next
    assume "expDigits j \<noteq> []" "expMark j = ''e''"
    with rm dpnd ex hdE show ?thesis
      by (simp add: readFloat_def sign)
  next
    assume "expDigits j \<noteq> []" "expMark j = ''E''"
    with rm dpnd ex hdE show ?thesis
      by (simp add: readFloat_def sign)
  next
    assume "expDigits j \<noteq> []" "expMark j = ''e+''"
    with rm dpnd ex hdE show ?thesis
      by (simp add: readFloat_def sign)
  next
    assume "expDigits j \<noteq> []" "expMark j = ''E+''"
    with rm dpnd ex hdE show ?thesis
      by (simp add: readFloat_def sign)
  next
    assume "expDigits j \<noteq> []" "expMark j = ''e-''"
    with rm dpnd ex hdE show ?thesis
      by (simp add: readFloat_def sign)
  next
    assume "expDigits j \<noteq> []" "expMark j = ''E-''"
    with rm dpnd ex hdE show ?thesis
      by (simp add: readFloat_def sign)
  qed
qed

lemma ParseFloat_numberText:
  assumes "wellFormed j"
    and x: "x = snd (readExpDigits (expDigits j) 0)"
  shows "ParseFloat (numberText j) =
    (let b = float64Magnitude (decimalValue (intPart j @ fracPart j))
               ((if CHR ''-'' \<in> set (expMark j) then - int x else int x) -
                int (length (fracPart j)))
     in if b \<ge> float64Inf then None
        else Some ((if negative j then push_bit 63 1 else 0) OR word_of_nat b))"
  unfolding ParseFloat_def readFloat_numberText [OF assms]
  by (simp add: float64Magnitude_zero Let_def)

lemma exponent_as_written:
  assumes "wellFormed j" "decimalValue (expDigits j) < 100000"
  shows "(if CHR ''-'' \<in> set (expMark j) then - int (snd (readExpDigits (expDigits j) 0))
          else int (snd (readExpDigits (expDigits j) 0))) = exponentValue j"
proof -
  have "list_all isDecDigit (expDigits j)"
    using assms(1) by (simp add: wellFormed_def)
  from readExpDigits_digits [OF this, of 0] assms(2) show ?thesis
    by (simp add: decimalValue_def exponentValue_def)
qed

lemma ParseFloat_reference:
  assumes "wellFormed j" "decimalValue (expDigits j) < 100000"
  shows "referenceFloat tag (negative j) (decimalValue (intPart j @ fracPart j))
      (exponentValue j - int (length (fracPart j)))
      (case ParseFloat (numberText j) of Some bits \<Rightarrow> (tag, bits) | None \<Rightarrow> (0, 0))"
proof -
  define M where "M = decimalValue (intPart j @ fracPart j)"
  define E where "E = exponentValue j - int (length (fracPart j))"
  obtain num den where dr: "decimalRatio M E = (num, den)"
    by (cases "decimalRatio M E") auto
  note c = float64Magnitude_correct [OF dr]
  have pf: "ParseFloat (numberText j) =
    (let b = float64Magnitude M E
     in if b \<ge> float64Inf then None
        else Some ((if negative j then push_bit 63 1 else 0) OR word_of_nat b))"
    using ParseFloat_numberText [OF assms(1) refl]
    unfolding exponent_as_written [OF assms] M_def E_def .
  show ?thesis
  proof (cases "float64Inf \<le> float64Magnitude M E")
    case True
    with c have "beyondBinary64 num den" by simp
    with True show ?thesis
      unfolding M_def [symmetric] E_def [symmetric]
      by (simp add: referenceFloat_def dr pf Let_def)
  next
    case False
    with c have "\<not> beyondBinary64 num den" "nearestBinary64 num den (float64Magnitude M E)"
      by simp_all
    with False show ?thesis
      unfolding M_def [symmetric] E_def [symmetric]
      by (auto simp: referenceFloat_def dr pf Let_def)
  qed
qed

lemma decimalAcc_lower: "n * 10 ^ length ds \<le> decimalAcc n ds"
proof (induction ds arbitrary: n)
  case Nil
  then show ?case by simp
next
  case (Cons c ds)
  have "n * 10 ^ length (c # ds) \<le> (n * 10 + digitVal c) * 10 ^ length ds"
    by (simp add: algebra_simps)
  also have "\<dots> \<le> decimalAcc (n * 10 + digitVal c) ds" by (rule Cons.IH)
  finally show ?case by simp
qed

lemma digitVal_pos: "isDecDigit c \<Longrightarrow> c \<noteq> CHR ''0'' \<Longrightarrow> 0 < digitVal c"
  by (drule isDecDigit_cases, elim disjE) (simp_all add: digitVal_def)

lemma decimalValue_lower:
  assumes "list_all isDecDigit ds" "ds \<noteq> []" "hd ds \<noteq> CHR ''0''"
  shows "10 ^ (length ds - 1) \<le> decimalValue ds"
proof -
  obtain d ds' where ds: "ds = d # ds'" using assms(2) by (cases ds) auto
  with assms have "0 < digitVal d" by (simp add: digitVal_pos)
  then have "1 * 10 ^ length ds' \<le> digitVal d * 10 ^ length ds'"
    by (intro mult_right_mono) simp_all
  also have "\<dots> \<le> decimalAcc (digitVal d) ds'" by (rule decimalAcc_lower)
  finally show ?thesis by (simp add: ds decimalValue_def)
qed

lemma numberText_leading_zero:
  assumes "wellFormed j"
  shows "\<not> (length (numberText j) > 1 \<and> (numberText j @ c # rest) ! 0 = CHR ''0'' \<and>
            isNumberRune ((numberText j @ c # rest) ! 1) AND isFloatOnlyFlag = 0)"
proof (cases "negative j")
  case True
  then show ?thesis by (simp add: numberText_def)
next
  case False
  have wf: "intPart j \<noteq> []" "intPart j = ''0'' \<or> hd (intPart j) \<noteq> CHR ''0''"
    using assms by (auto simp: wellFormed_def)
  have marks: "(expMark j = [] \<and> expDigits j = []) \<or>
    (expMark j = ''e'' \<or> expMark j = ''E'' \<or> expMark j = ''e+'' \<or>
       expMark j = ''E+'' \<or> expMark j = ''e-'' \<or> expMark j = ''E-'')"
    using assms by (auto simp: wellFormed_def split: if_splits)
  from wf(2) show ?thesis
  proof
    assume z: "intPart j = ''0''"
    from marks show ?thesis
      using False z
      by (elim disjE conjE)
         (simp_all add: numberText_def isNumberRune_marks isFloatOnlyFlag_def)
  next
    assume "hd (intPart j) \<noteq> CHR ''0''"
    with wf(1) False show ?thesis
      by (cases "intPart j") (simp_all add: numberText_def)
  qed
qed

lemma parseNumberFloat_numberText:
  assumes "wellFormed j"
  shows "parseNumberFloat (numberText j @ c # rest) (length (numberText j)) tag =
    (case ParseFloat (numberText j) of Some bits \<Rightarrow> (tag, bits) | None \<Rightarrow> (0, 0))"
  using numberText_leading_zero [OF assms, of c rest]
  by (auto simp: parseNumberFloat_def)

lemma numberText_int_leading_zero:
  assumes "wellFormed j" "fracPart j = []" "expMark j = []"
  shows "\<not> (if \<not> negative j
            then length (numberText j) > 1 \<and> (numberText j @ c # rest) ! 0 = CHR ''0''
            else length (numberText j) > 2 \<and> (numberText j @ c # rest) ! 1 = CHR ''0'')"
proof -
  have wf: "intPart j \<noteq> []" "intPart j = ''0'' \<or> hd (intPart j) \<noteq> CHR ''0''" "expDigits j = []"
    using assms by (auto simp: wellFormed_def)
  from wf(2) show ?thesis
  proof
    assume "intPart j = ''0''"
    with assms wf(3) show ?thesis by (simp add: numberText_def)
  next
    assume "hd (intPart j) \<noteq> CHR ''0''"
    with wf(1,3) assms(2,3) show ?thesis
      by (cases "intPart j") (simp_all add: numberText_def)
  qed
qed

lemma found_bits:
  "((if neg then 53 else 17) OR (if fs = [] then 0 else 51) OR
     (if mark = [] then 0 else if CHR ''-'' \<in> set mark then 55 else (19 :: 8 word)))
     AND isFloatOnlyFlag = 0 \<longleftrightarrow> fs = [] \<and> mark = []"
  "((if neg then 53 else 17) OR (if [] = ([] :: string) then 0 else 51) OR
     (if [] = ([] :: string) then 0 else if CHR ''-'' \<in> set [] then 55 else (19 :: 8 word)))
     AND isMinusFlag = 0 \<longleftrightarrow> \<not> neg"
  by (simp_all add: isFloatOnlyFlag_def isMinusFlag_def)

lemma parseNumber_fraction_or_exponent:
  assumes "wellFormed j" "isEndOfValue c" "\<not> (fracPart j = [] \<and> expMark j = [])"
  shows "parseNumber K (numberText j @ c # rest) =
    (case ParseFloat (numberText j) of
       Some bits \<Rightarrow> (push_bit (JSONTAGOFFSET K) (TagFloat K), bits)
     | None \<Rightarrow> (0, 0))"
proof -
  define found :: "8 word" where
    "found = (if negative j then 53 else 17) OR (if fracPart j = [] then 0 else 51) OR
          (if expMark j = [] then 0 else if CHR ''-'' \<in> set (expMark j) then 55 else 19)"
  have scan: "scanNumber (numberText j @ c # rest) 0 0 0 = Some (found, length (numberText j))"
    unfolding found_def by (rule scan_numberText [OF assms(1,2)])
  have "intPart j \<noteq> []"
    using assms(1) by (simp add: wellFormed_def)
  then have posn: "numberText j \<noteq> []"
    by (simp add: numberText_def)
  have fo: "found AND isFloatOnlyFlag \<noteq> 0"
    unfolding found_def
    using found_bits(1) [of "negative j" "fracPart j" "expMark j"] assms(3) by simp
  show ?thesis
    unfolding parseNumber_def scan using posn fo
    by (simp add: Let_def parseNumberFloat_numberText [OF assms(1)])
qed

lemma referenceFloat_unique:
  assumes "referenceFloat tag neg m e r1" "referenceFloat tag neg m e r2"
  shows "r1 = r2"
proof -
  obtain num den where dr: "decimalRatio m e = (num, den)"
    by (cases "decimalRatio m e") auto
  have den: "0 < den" by (rule decimalRatio_pos(1) [OF dr])
  show ?thesis
  proof (cases "beyondBinary64 num den")
    case True
    with assms dr show ?thesis by (simp add: referenceFloat_def)
  next
    case False
    with assms dr obtain b1 b2 where
      b: "nearestBinary64 num den b1" "nearestBinary64 num den b2"
      and r: "r1 = (tag, (if neg then push_bit 63 1 else 0) OR word_of_nat b1)"
        "r2 = (tag, (if neg then push_bit 63 1 else 0) OR word_of_nat b2)"
      by (auto simp: referenceFloat_def)
    from nearestBinary64_unique [OF den b] r show ?thesis by simp
  qed
qed

lemma referenceDecode_unique:
  assumes "referenceDecode K j r1" "referenceDecode K j r2"
  shows "r1 = r2"
  using assms unfolding referenceDecode_def Let_def
  by (auto split: if_splits dest: referenceFloat_unique)

lemma referenceFloat_total: "\<exists>r. referenceFloat tag neg m e r"
proof -
  obtain num den where dr: "decimalRatio m e = (num, den)"
    by (cases "decimalRatio m e") auto
  from float64Magnitude_correct [OF dr]
  have "beyondBinary64 num den \<or> nearestBinary64 num den (float64Magnitude m e)"
    by (cases "float64Inf \<le> float64Magnitude m e") simp_all
  then show ?thesis
    unfolding referenceFloat_def dr by auto
qed

lemma ex_if_cases:
  "(c \<Longrightarrow> \<exists>r. P r) \<Longrightarrow> (\<not> c \<Longrightarrow> \<exists>r. Q r) \<Longrightarrow> \<exists>r. if c then P r else Q r"
  by (cases c) simp_all

lemma referenceDecode_total: "\<exists>r. referenceDecode K j r"
  unfolding referenceDecode_def Let_def
  by (intro ex_if_cases; (rule referenceFloat_total | simp))

text \<open>
  C1, as the code has it. For every valid JSON number whose exponent, if it has one, is
  written with digits that denote a number below 100000 (up to there ParseFloat reads the
  exponent as written), followed by an end-of-value byte and then by anything, parseNumber
  consumes exactly the text of the number and returns what the reference decoder answers:
  Integer with the two's-complement value for a number without fraction and exponent in the
  \<open>int64\<close> range, Uint for one above it in the \<open>uint64\<close> range, and otherwise Float,
  flagged as an overflowed integer exactly when the text has neither fraction nor exponent,
  with the binary64 nearest to the value (ties to even) under the sign as payload; a number
  whose value rounding to nearest takes out of the finite binary64 numbers gets the
  not-a-number signal \<open>(0, 0)\<close>.
\<close>

theorem parseNumber_reference:
  assumes "wellFormed j" "isEndOfValue c" "decimalValue (expDigits j) < 100000"
  shows "referenceDecode K j (parseNumber K (numberText j @ c # rest)) \<and>
    (\<exists>found. scanNumber (numberText j @ c # rest) 0 0 0 = Some (found, length (numberText j)))"
proof -
  define buf where "buf = numberText j @ c # rest"
  define pos where "pos = length (numberText j)"
  define found :: "8 word" where
    "found = (if negative j then 53 else 17) OR (if fracPart j = [] then 0 else 51) OR
          (if expMark j = [] then 0 else if CHR ''-'' \<in> set (expMark j) then 55 else 19)"
  define n where "n = decimalValue (intPart j)"
  define floatTag where "floatTag = push_bit (JSONTAGOFFSET K) (TagFloat K)"
  have wf: "list_all isDecDigit (intPart j)" "intPart j \<noteq> []"
    "intPart j = ''0'' \<or> hd (intPart j) \<noteq> CHR ''0''"
    "expMark j = [] \<Longrightarrow> expDigits j = []"
    using assms(1) by (auto simp: wellFormed_def)
  have scan: "scanNumber buf 0 0 0 = Some (found, pos)"
    unfolding buf_def pos_def found_def by (rule scan_numberText [OF assms(1,2)])
  have posn: "pos \<noteq> 0"
    using wf(2) by (simp add: pos_def numberText_def)
  have tk: "take pos buf = numberText j"
    by (simp add: pos_def buf_def)
  have pf: "referenceFloat tag (negative j) (decimalValue (intPart j @ fracPart j))
        (exponentValue j - int (length (fracPart j))) (parseNumberFloat buf pos tag)" for tag
    unfolding buf_def pos_def parseNumberFloat_numberText [OF assms(1)]
    by (rule ParseFloat_reference [OF assms(1,3)])
  have start: "parseNumber K buf =
    (if found AND isFloatOnlyFlag = 0 \<and> pos \<le> maxIntLen then
       (if (if found AND isMinusFlag = 0 then pos > 1 \<and> buf ! 0 = CHR ''0''
            else pos > 2 \<and> buf ! 1 = CHR ''0'')
        then (0, 0)
        else
          case ParseInt (take pos buf) of
            Ok i64 \<Rightarrow> (push_bit (JSONTAGOFFSET K) (TagInteger K), i64)
          | err \<Rightarrow>
              (let floatTag1 =
                 (if err = ErrRange then floatTag OR FloatOverflowedInteger K
                  else floatTag)
               in if found AND isMinusFlag = 0 then
                    (case ParseUint (take pos buf) of
                       Ok u64 \<Rightarrow> (push_bit (JSONTAGOFFSET K) (TagUint K), u64)
                     | err2 \<Rightarrow>
                         parseNumberFloat buf pos
                           (if err2 = ErrRange then floatTag1 OR FloatOverflowedInteger K
                            else floatTag1))
                  else parseNumberFloat buf pos floatTag1))
     else parseNumberFloat buf pos
            (if found AND isFloatOnlyFlag = 0 then floatTag OR FloatOverflowedInteger K
             else floatTag))"
    unfolding parseNumber_def scan floatTag_def using posn by (simp add: Let_def)
  have main: "referenceDecode K j (parseNumber K buf)"
  proof (cases "fracPart j = [] \<and> expMark j = []")
    case False
    then have fo: "found AND isFloatOnlyFlag \<noteq> 0"
      unfolding found_def
      using found_bits(1) [of "negative j" "fracPart j" "expMark j"] by simp
    have e: "parseNumber K buf = parseNumberFloat buf pos floatTag"
      unfolding start using fo by simp
    have "referenceDecode K j r = referenceFloat floatTag (negative j)
        (decimalValue (intPart j @ fracPart j)) (exponentValue j - int (length (fracPart j))) r"
      for r
      unfolding referenceDecode_def Let_def floatTag_def by (rule if_not_P [OF False])
    then show ?thesis
      unfolding e using pf [of floatTag] by simp
  next
    case True
    then have fr: "fracPart j = []" and ma: "expMark j = []" and ed: "expDigits j = []"
      using wf(4) by simp_all
    have shape: "numberText j = (if negative j then ''-'' else []) @ intPart j"
      by (simp add: numberText_def fr ma ed)
    have fo: "found AND isFloatOnlyFlag = 0"
      unfolding found_def
      using found_bits(1) [of "negative j" "fracPart j" "expMark j"] True by simp
    have mi: "(found AND isMinusFlag = 0) = (\<not> negative j)"
      unfolding found_def fr ma by (rule found_bits(2))
    have lz: "\<not> (if \<not> negative j then pos > 1 \<and> buf ! 0 = CHR ''0''
               else pos > 2 \<and> buf ! 1 = CHR ''0'')"
      unfolding buf_def pos_def by (rule numberText_int_leading_zero [OF assms(1) fr ma])
    have pi: "ParseInt (take pos buf) =
      (if \<not> negative j \<and> n < 2 ^ 63 then Ok (word_of_nat n)
       else if negative j \<and> n \<le> 2 ^ 63 then Ok (- word_of_nat n)
       else ErrRange)"
      unfolding tk shape n_def by (rule ParseInt_signed_digits [OF wf(1,2)])
    have pu: "ParseUint (take pos buf) =
      (if n < 2 ^ 64 then Ok (word_of_nat n) else ErrRange)" if "\<not> negative j"
      unfolding tk shape n_def using ParseUint_digits [OF wf(1,2)] that by simp
    have ev: "exponentValue j - int (length (fracPart j)) = 0"
      by (simp add: exponentValue_def fr ma ed decimalValue_def)
    have m: "decimalValue (intPart j @ fracPart j) = n"
      by (simp add: fr n_def)
    have pf': "referenceFloat tag (negative j) n 0 (parseNumberFloat buf pos tag)" for tag
      using pf [of tag] unfolding ev m .
    have ref: "referenceDecode K j r =
      (if \<not> negative j \<and> n < 2 ^ 63 then
         r = (push_bit (JSONTAGOFFSET K) (TagInteger K), word_of_nat n)
       else if negative j \<and> n \<le> 2 ^ 63 then
         r = (push_bit (JSONTAGOFFSET K) (TagInteger K), - word_of_nat n)
       else if \<not> negative j \<and> n < 2 ^ 64 then
         r = (push_bit (JSONTAGOFFSET K) (TagUint K), word_of_nat n)
       else referenceFloat (floatTag OR FloatOverflowedInteger K) (negative j) n 0 r)" for r
      by (simp add: referenceDecode_def fr ma n_def floatTag_def Let_def)
    show ?thesis
    proof (cases "pos \<le> maxIntLen")
      case short: True
      show ?thesis
      proof (cases "negative j")
        case neg: True
        from lz neg have lz': "\<not> (pos > 2 \<and> buf ! 1 = CHR ''0'')" by simp
        have pfn: "referenceFloat tag True n 0 (parseNumberFloat buf pos tag)" for tag
          using pf' [of tag] neg by simp
        show ?thesis
          unfolding start ref pi
          using fo mi short neg lz' by (auto simp: pfn Let_def)
      next
        case nneg: False
        from lz nneg have lz': "\<not> (pos > 1 \<and> buf ! 0 = CHR ''0'')" by simp
        have pfp: "referenceFloat tag False n 0 (parseNumberFloat buf pos tag)" for tag
          using pf' [of tag] nneg by simp
        show ?thesis
          unfolding start ref pi pu [OF nneg]
          using fo mi short nneg lz' by (auto simp: pfp Let_def or.assoc)
      qed
    next
      case long: False
      have big: "if negative j then 2 ^ 63 < n else 2 ^ 64 \<le> n"
      proof -
        from long have len: "length (intPart j) \<ge> (if negative j then 20 else 21)"
          by (cases "negative j") (simp_all add: pos_def shape maxIntLen_def)
        then have "intPart j \<noteq> ''0''" by (auto split: if_splits)
        with wf(3) have "hd (intPart j) \<noteq> CHR ''0''" by simp
        from decimalValue_lower [OF wf(1,2) this]
        have low: "10 ^ (length (intPart j) - 1) \<le> n" unfolding n_def .
        have "(10::nat) ^ (if negative j then 19 else 20) \<le> 10 ^ (length (intPart j) - 1)"
          using len by (intro power_increasing) (auto split: if_splits)
        with low have "(10::nat) ^ (if negative j then 19 else 20) \<le> n"
          by (rule order_trans [rotated])
        then show ?thesis by (simp split: if_splits)
      qed
      have e: "parseNumber K buf =
          parseNumberFloat buf pos (floatTag OR FloatOverflowedInteger K)"
        unfolding start using fo long by simp
      show ?thesis
        unfolding e ref using big pf' [of "floatTag OR FloatOverflowedInteger K"]
        by (simp split: if_splits)
    qed
  qed
  from main scan show ?thesis unfolding buf_def pos_def by blast
qed

lemma ParseFloat_witnesses:
  "ParseFloat ''-12.5e+1'' = Some 0xC05F400000000000"
  "ParseFloat ''0.1'' = Some 0x3FB999999999999A"
  by (simp_all add: float_defs)

theorem parseNumber_reference_witness:
  "parseNumber exampleTags ''-12.5e+1,'' = (push_bit 56 100, 0xC05F400000000000) \<and>
   referenceDecode exampleTags
     \<lparr>negative = True, intPart = ''12'', fracPart = ''5'', expMark = ''e+'', expDigits = ''1''\<rparr>
     (push_bit 56 100, 0xC05F400000000000) \<and>
   parseNumber exampleTags ''0.1,'' = (push_bit 56 100, 0x3FB999999999999A) \<and>
   referenceDecode exampleTags
     \<lparr>negative = False, intPart = ''0'', fracPart = ''1'', expMark = [], expDigits = []\<rparr>
     (push_bit 56 100, 0x3FB999999999999A)"
proof -
  let ?j = "\<lparr>negative = True, intPart = ''12'', fracPart = ''5'', expMark = ''e+'', expDigits = ''1''\<rparr>"
  let ?i = "\<lparr>negative = False, intPart = ''0'', fracPart = ''1'', expMark = [], expDigits = []\<rparr>"
  have a: "wellFormed ?j" "wellFormed ?i"
    by (simp_all add: wellFormed_def isDecDigit_def)
  have b: "isEndOfValue CHR '',''"
    by (simp add: isEndOfValue_def)
  have c: "decimalValue (expDigits ?j) < 100000" "decimalValue (expDigits ?i) < 100000"
    by (simp_all add: decimalValue_def digitVal_def)
  have t: "numberText ?j @ CHR '','' # [] = ''-12.5e+1,''" "numberText ?i @ CHR '','' # [] = ''0.1,''"
    by (simp_all add: numberText_def)
  have v: "parseNumber exampleTags ''-12.5e+1,'' = (push_bit 56 100, 0xC05F400000000000)"
    "parseNumber exampleTags ''0.1,'' = (push_bit 56 100, 0x3FB999999999999A)"
    by (simp_all add: parseNumber_defs table_defs ParseFloat_witnesses exampleTags_def)
  from parseNumber_reference [OF a(1) b c(1), of exampleTags "[]"]
  have "referenceDecode exampleTags ?j (parseNumber exampleTags ''-12.5e+1,'')"
    unfolding t by (rule conjunct1)
  moreover from parseNumber_reference [OF a(2) b c(2), of exampleTags "[]"]
  have "referenceDecode exampleTags ?i (parseNumber exampleTags ''0.1,'')"
    unfolding t by (rule conjunct1)
  ultimately show ?thesis
    by (simp add: v)
qed

lemma ParseFloat_1e400: "ParseFloat ''1e400'' = None"
  by (simp add: float_defs)

lemma list_all_replicate: "list_all P (replicate n x) \<longleftrightarrow> n = 0 \<or> P x"
  by (induction n) auto

lemma decimalAcc_zeros: "decimalAcc 0 (replicate n (CHR ''0'')) = 0"
  by (induction n) (simp_all add: digitVal_def)

lemma float64Magnitude_tiny:
  assumes "324 \<le> n"
  shows "float64Magnitude 1 (- int n) = 0"
proof -
  have n: "0 < n" using assms by simp
  then have dr: "decimalRatio 1 (- int n) = (1, 10 ^ n)"
    by (simp add: decimalRatio_def)
  have "2 * (1 * 2 ^ 1074) < (10::nat) ^ 324"
    by simp
  also have "\<dots> \<le> 10 ^ n"
    using assms by (intro power_increasing) simp_all
  finally have "2 * (1 * 2 ^ 1074) < (10::nat) ^ n" .
  with dr show ?thesis
    by (intro float64Magnitude_underflow [of 1 "- int n" 1 "10 ^ n"]) simp_all
qed

lemma cappedExponentNumber_wellFormed: "wellFormed cappedExponentNumber"
  by (simp add: wellFormed_def cappedExponentNumber_def isDecDigit_def list_all_replicate)

lemma cappedExponentNumber_value:
  "decimalValue (intPart cappedExponentNumber @ fracPart cappedExponentNumber) = 1"
  "exponentValue cappedExponentNumber - int (length (fracPart cappedExponentNumber)) = 0"
  "snd (readExpDigits (expDigits cappedExponentNumber) 0) = 10000"
  by (simp_all add: cappedExponentNumber_def decimalValue_def exponentValue_def
        decimalAcc_append decimalAcc_zeros digitVal_def isDecDigit_def)

lemma cappedExponentNumber_parse:
  "parseNumber exampleTags (numberText cappedExponentNumber @ '','') = (push_bit 56 100, 0)"
proof -
  have ev: "isEndOfValue CHR '',''"
    by (simp add: isEndOfValue_def)
  have fr: "\<not> (fracPart cappedExponentNumber = [] \<and> expMark cappedExponentNumber = [])"
    by (simp add: cappedExponentNumber_def)
  have e: "(if CHR ''-'' \<in> set (expMark cappedExponentNumber) then - int 10000 else int 10000) -
      int (length (fracPart cappedExponentNumber)) = - int 90001"
    by (simp add: cappedExponentNumber_def)
  have mag: "float64Magnitude 1 (- int 90001) = 0"
    by (rule float64Magnitude_tiny) simp
  have "ParseFloat (numberText cappedExponentNumber) = Some 0"
    using ParseFloat_numberText [OF cappedExponentNumber_wellFormed cappedExponentNumber_value(3) [symmetric]]
    unfolding cappedExponentNumber_value(1) e mag
    by (simp add: float64Inf_def cappedExponentNumber_def)
  with parseNumber_fraction_or_exponent [OF cappedExponentNumber_wellFormed ev fr, of exampleTags "[]"]
  show ?thesis
    by (simp add: exampleTags_def)
qed

lemma cappedExponentNumber_reference:
  "referenceDecode exampleTags cappedExponentNumber (push_bit 56 100, 0x3FF0000000000000)"
proof -
  have dr: "decimalRatio 1 0 = (1, 1)"
    by (simp add: decimalRatio_def)
  have mag: "float64Magnitude 1 0 = 0x3FF0000000000000"
    by (simp add: float_defs)
  from float64Magnitude_correct [OF dr]
  have "\<not> beyondBinary64 1 1" "nearestBinary64 1 1 0x3FF0000000000000"
    unfolding mag by (simp_all add: float64Inf_def)
  then have "referenceFloat (push_bit 56 100) False 1 0 (push_bit 56 100, 0x3FF0000000000000)"
    unfolding referenceFloat_def dr by (auto intro!: exI [of _ "0x3FF0000000000000"])
  moreover have "fracPart cappedExponentNumber \<noteq> []"
    by (simp add: cappedExponentNumber_def)
  ultimately show ?thesis
    unfolding referenceDecode_def Let_def cappedExponentNumber_value
    by (simp add: exampleTags_def cappedExponentNumber_def)
qed

text \<open>
  C1, as stated, does not hold. \<open>1e400\<close> is a valid JSON number, and parseNumber answers
  the window \<open>1e400,\<close> with the not-a-number signal, which carries none of the three
  tags. And the exponent is read as written only while its digits denote a number below
  100000: the number with a hundred thousand zeros and a one behind the point and the
  exponent 100001 has the value 1, for which the reference decoder answers the Float
  \<open>1.0\<close>; ParseFloat reads the exponent as 10000, and parseNumber returns the Float
  \<open>0.0\<close>.
\<close>

theorem parseNumber_leaves_reference:
  "wellFormed \<lparr>negative = False, intPart = ''1'', fracPart = [], expMark = ''e'', expDigits = ''400''\<rparr> \<and>
   numberText \<lparr>negative = False, intPart = ''1'', fracPart = [], expMark = ''e'', expDigits = ''400''\<rparr> = ''1e400'' \<and>
   isEndOfValue CHR '','' \<and>
   parseNumber exampleTags ''1e400,'' = (0, 0) \<and>
   fst (parseNumber exampleTags ''1e400,'') \<noteq> push_bit (JSONTAGOFFSET exampleTags) (TagInteger exampleTags) \<and>
   fst (parseNumber exampleTags ''1e400,'') \<noteq> push_bit (JSONTAGOFFSET exampleTags) (TagUint exampleTags) \<and>
   fst (parseNumber exampleTags ''1e400,'') \<noteq> push_bit (JSONTAGOFFSET exampleTags) (TagFloat exampleTags) \<and>
   wellFormed cappedExponentNumber \<and>
   numberText cappedExponentNumber = ''0.'' @ replicate 100000 (CHR ''0'') @ ''1e100001'' \<and>
   parseNumber exampleTags (numberText cappedExponentNumber @ '','') = (push_bit 56 100, 0) \<and>
   referenceDecode exampleTags cappedExponentNumber (push_bit 56 100, 0x3FF0000000000000) \<and>
   \<not> referenceDecode exampleTags cappedExponentNumber
       (parseNumber exampleTags (numberText cappedExponentNumber @ '',''))"
proof -
  have one: "parseNumber exampleTags ''1e400,'' = (0, 0)"
    by (simp add: parseNumber_defs table_defs ParseFloat_1e400)
  have shape: "numberText cappedExponentNumber = ''0.'' @ replicate 100000 (CHR ''0'') @ ''1e100001''"
    by (simp add: numberText_def cappedExponentNumber_def)
  have "(push_bit 56 100, 0x3FF0000000000000) \<noteq> (push_bit 56 100, 0 :: 64 word)"
    by simp
  then have no: "\<not> referenceDecode exampleTags cappedExponentNumber (push_bit 56 100, 0)"
    using referenceDecode_unique [OF cappedExponentNumber_reference] by blast
  have first: "wellFormed \<lparr>negative = False, intPart = ''1'', fracPart = [], expMark = ''e'', expDigits = ''400''\<rparr> \<and>
   numberText \<lparr>negative = False, intPart = ''1'', fracPart = [], expMark = ''e'', expDigits = ''400''\<rparr> = ''1e400'' \<and>
   isEndOfValue CHR '','' \<and>
   parseNumber exampleTags ''1e400,'' = (0, 0) \<and>
   fst (parseNumber exampleTags ''1e400,'') \<noteq> push_bit (JSONTAGOFFSET exampleTags) (TagInteger exampleTags) \<and>
   fst (parseNumber exampleTags ''1e400,'') \<noteq> push_bit (JSONTAGOFFSET exampleTags) (TagUint exampleTags) \<and>
   fst (parseNumber exampleTags ''1e400,'') \<noteq> push_bit (JSONTAGOFFSET exampleTags) (TagFloat exampleTags)"
    using one
    by (simp add: wellFormed_def numberText_def isEndOfValue_def isDecDigit_def exampleTags_def)
  from first shape no cappedExponentNumber_wellFormed cappedExponentNumber_reference
  show ?thesis
    unfolding cappedExponentNumber_parse by blast
qed

section \<open>Properties of the orchestrator\<close>

subsection \<open>initialize\<close>

text \<open>
  C7. For every input length \<open>n\<close>, initialize works with the hint \<open>n * 15 / 100\<close> for
  the Tape and \<open>n / 10\<close>, but at least 128, for the Strings arena. A buffer whose capacity
  meets its hint is kept and truncated to length zero: the same array with the same capacity.
  A buffer is allocated only when the old one is too small (or, for the arena, missing), and
  then with exactly the hint as its capacity; no allocation happens at all exactly when the
  Tape, the arena and the scope stack are all large enough.
\<close>

theorem initialize_capacity_hints:
  "initialize H n (heap, pj) = (heap', pj') \<longrightarrow>
     (cap (Tape pj) \<ge> n * 15 div 100 \<longrightarrow> Tape pj' = (Tape pj)\<lparr>len := 0\<rparr>) \<and>
     (cap (Tape pj) < n * 15 div 100 \<longrightarrow>
        Tape pj' = \<lparr>array = heap, len = 0, cap = n * 15 div 100\<rparr>) \<and>
     (\<forall>B. Strings pj = Some B \<and> cap B \<ge> max (n div 10) 128 \<longrightarrow>
        Strings pj' = Some (B\<lparr>len := 0\<rparr>)) \<and>
     ((\<forall>B. Strings pj = Some B \<longrightarrow> cap B < max (n div 10) 128) \<longrightarrow>
        (\<exists>a. Strings pj' = Some \<lparr>array = a, len = 0, cap = max (n div 10) 128\<rparr> \<and>
             heap \<le> a \<and> a < heap')) \<and>
     (heap' = heap \<longleftrightarrow>
        cap (Tape pj) \<ge> n * 15 div 100 \<and>
        (\<exists>B. Strings pj = Some B \<and> cap B \<ge> max (n div 10) 128) \<and>
        cap (containingScopeOffset pj) \<ge> maxdepth H)"
  by (auto simp: initialize_def makeSlice_def Let_def max_def
           split: if_splits option.splits prod.splits)

theorem initialize_capacity_hints_witness:
  "initialize idleHost 2000
     (7, zeroInternalParsedJson\<lparr>Tape := \<lparr>array = 3, len = 40, cap = 400\<rparr>,
                                 Strings := Some \<lparr>array = 4, len = 9, cap = 100\<rparr>\<rparr>) =
   (9, zeroInternalParsedJson\<lparr>Tape := \<lparr>array = 3, len = 0, cap = 400\<rparr>,
                               Strings := Some \<lparr>array = 7, len = 0, cap = 200\<rparr>,
                               containingScopeOffset := \<lparr>array = 8, len = 0, cap = 128\<rparr>\<rparr>) \<and>
   Tape (zeroInternalParsedJson\<lparr>Tape := \<lparr>array = 3, len = 0, cap = 400\<rparr>,
                               Strings := Some \<lparr>array = 7, len = 0, cap = 200\<rparr>,
                               containingScopeOffset := \<lparr>array = 8, len = 0, cap = 128\<rparr>\<rparr>) =
     \<lparr>array = 3, len = 40, cap = 400\<rparr>\<lparr>len := 0\<rparr>"
proof -
  let ?pj = "zeroInternalParsedJson\<lparr>Tape := \<lparr>array = 3, len = 40, cap = 400\<rparr>,
                                   Strings := Some \<lparr>array = 4, len = 9, cap = 100\<rparr>\<rparr>"
  let ?pj' = "zeroInternalParsedJson\<lparr>Tape := \<lparr>array = 3, len = 0, cap = 400\<rparr>,
                               Strings := Some \<lparr>array = 7, len = 0, cap = 200\<rparr>,
                               containingScopeOffset := \<lparr>array = 8, len = 0, cap = 128\<rparr>\<rparr>"
  have run: "initialize idleHost 2000 (7, ?pj) = (9, ?pj')"
    by (simp add: initialize_def makeSlice_def idleHost_def zeroInternalParsedJson_def nilSlice_def)
  have enough: "cap (Tape ?pj) \<ge> 2000 * 15 div 100"
    by simp
  from initialize_capacity_hints [of idleHost 2000 7 ?pj 9 ?pj'] run enough
  have "Tape ?pj' = (Tape ?pj)\<lparr>len := 0\<rparr>"
    by blast
  with run show ?thesis by simp
qed

subsection \<open>bytes.TrimSpace and surrounding whitespace\<close>

lemma startsWith_length: "startsWith s w \<Longrightarrow> length w \<le> length s"
  by (induction s w rule: startsWith.induct) auto

lemma startsWith_append:
  assumes "b \<noteq> []" "w \<noteq> []" "set (tl w) \<inter> A = {}" "set ws \<subseteq> A"
  shows "startsWith (b @ ws) w = startsWith b w"
  using assms
proof (induction b arbitrary: w)
  case Nil
  then show ?case by simp
next
  case (Cons x b)
  obtain c w' where w: "w = c # w'" using Cons.prems(2) by (cases w) auto
  show ?case
  proof (cases "w' = []")
    case True
    with w show ?thesis by simp
  next
    case False
    then obtain d w'' where w': "w' = d # w''" by (cases w') auto
    show ?thesis
    proof (cases "b = []")
      case True
      have "\<not> startsWith ws w'"
        using Cons.prems(3,4) w w' by (cases ws) auto
      with True w w' show ?thesis by simp
    next
      case nb: False
      have "startsWith (b @ ws) w' = startsWith b w'"
        using Cons.IH [OF nb, of w'] Cons.prems(3,4) w w' False by auto
      with w show ?thesis by simp
    qed
  qed
qed

lemma spaceRunes_shape:
  "\<forall>w \<in> set spaceRunes. w \<noteq> [] \<and> set (tl w) \<inter> set asciiSpace = {}"
  by (simp add: spaceRunes_def asciiSpace_def unicodeSpace_def)

lemma spaceWidth_append:
  assumes "b \<noteq> []" "set ws \<subseteq> set asciiSpace"
  shows "spaceWidth spaceRunes (b @ ws) = spaceWidth spaceRunes b"
proof -
  have "startsWith (b @ ws) w = startsWith b w" if "w \<in> set spaceRunes" for w
    using that spaceRunes_shape startsWith_append [OF assms(1) _ _ assms(2), of w] by blast
  then have "List.find (startsWith (b @ ws)) spaceRunes = List.find (startsWith b) spaceRunes"
    by (intro find_cong refl)
  then show ?thesis by (simp add: spaceWidth_def)
qed

lemma spaceWidth_le: "spaceWidth W s \<le> length s"
  by (auto simp: spaceWidth_def find_Some_iff startsWith_length split: option.splits)

lemma spaceWidth_ascii:
  assumes "c \<in> set asciiSpace"
  shows "spaceWidth spaceRunes (c # s) = 1" and "spaceWidth (map rev spaceRunes) (c # s) = 1"
proof -
  have c: "c = CHR 0x09 \<or> c = CHR 0x0A \<or> c = CHR 0x0B \<or> c = CHR 0x0C \<or> c = CHR 0x0D \<or> c = CHR 0x20"
    using assms by (simp add: asciiSpace_def)
  from c show "spaceWidth spaceRunes (c # s) = 1"
    by (elim disjE) (simp_all add: spaceWidth_def spaceRunes_def asciiSpace_def unicodeSpace_def)
  from c show "spaceWidth (map rev spaceRunes) (c # s) = 1"
    by (elim disjE) (simp_all add: spaceWidth_def spaceRunes_def asciiSpace_def unicodeSpace_def)
qed

lemma dropSpaces_Nil: "dropSpaces W n [] = []"
  by (induction n) auto

lemma dropSpaces_enough:
  "length s \<le> n \<Longrightarrow> length s \<le> m \<Longrightarrow> dropSpaces W n s = dropSpaces W m s"
proof (induction n arbitrary: m s)
  case 0
  then show ?case by (simp add: dropSpaces_Nil)
next
  case (Suc n)
  show ?case
  proof (cases m)
    case 0
    with Suc.prems show ?thesis by (simp add: dropSpaces_Nil)
  next
    case (Suc m')
    show ?thesis
    proof (cases "spaceWidth W s = 0")
      case True
      with Suc show ?thesis by simp
    next
      case False
      then have "length (drop (spaceWidth W s) s) \<le> n" "length (drop (spaceWidth W s) s) \<le> m'"
        using Suc.prems Suc by auto
      then show ?thesis using Suc.IH [of "drop (spaceWidth W s) s" m'] Suc False by simp
    qed
  qed
qed

lemma dropSpaces_ascii_prefix:
  assumes "set ws \<subseteq> set asciiSpace"
  shows "dropSpaces spaceRunes (length ws + n) (ws @ s) = dropSpaces spaceRunes n s"
    and "dropSpaces (map rev spaceRunes) (length ws + n) (ws @ s) = dropSpaces (map rev spaceRunes) n s"
  using assms by (induction ws) (auto simp: spaceWidth_ascii)

lemma trimLeft_ascii_prefix:
  "set ws \<subseteq> set asciiSpace \<Longrightarrow> trimLeft (ws @ s) = trimLeft s"
  using dropSpaces_ascii_prefix(1) [of ws "length s" s] by (simp add: trimLeft_def)

lemma trimRight_ascii_suffix:
  assumes "set ws \<subseteq> set asciiSpace"
  shows "trimRight (s @ ws) = trimRight s"
proof -
  have "set (rev ws) \<subseteq> set asciiSpace" using assms by simp
  from dropSpaces_ascii_prefix(2) [OF this, of "length s" "rev s"]
  show ?thesis by (simp add: trimRight_def add.commute)
qed

lemma trimLeft_ascii_suffix_aux:
  assumes "set ws \<subseteq> set asciiSpace"
  shows "length b \<le> n \<Longrightarrow>
    dropSpaces spaceRunes (n + length ws) (b @ ws) =
      (if dropSpaces spaceRunes n b = [] then [] else dropSpaces spaceRunes n b @ ws)"
proof (induction n arbitrary: b)
  case 0
  then have "b = []" by simp
  moreover have "dropSpaces spaceRunes (length ws + 0) (ws @ []) = dropSpaces spaceRunes 0 []"
    by (rule dropSpaces_ascii_prefix(1) [OF assms])
  ultimately show ?case by simp
next
  case (Suc n)
  show ?case
  proof (cases "b = []")
    case True
    have "dropSpaces spaceRunes (length ws + Suc n) (ws @ []) = dropSpaces spaceRunes (Suc n) []"
      by (rule dropSpaces_ascii_prefix(1) [OF assms])
    with True show ?thesis by (simp add: dropSpaces_Nil add.commute)
  next
    case False
    have sw: "spaceWidth spaceRunes (b @ ws) = spaceWidth spaceRunes b"
      by (rule spaceWidth_append [OF False assms])
    show ?thesis
    proof (cases "spaceWidth spaceRunes b = 0")
      case True
      with sw False show ?thesis by simp
    next
      case nz: False
      have le: "spaceWidth spaceRunes b \<le> length b" by (rule spaceWidth_le)
      then have "length (drop (spaceWidth spaceRunes b) b) \<le> n" using Suc.prems nz by simp
      from Suc.IH [OF this] sw nz le show ?thesis by simp
    qed
  qed
qed

lemma TrimSpace_surrounded:
  assumes "set ws1 \<subseteq> set asciiSpace" "set ws2 \<subseteq> set asciiSpace"
  shows "TrimSpace (ws1 @ b @ ws2) = TrimSpace b"
proof -
  have "trimLeft (b @ ws2) = (if trimLeft b = [] then [] else trimLeft b @ ws2)"
    using trimLeft_ascii_suffix_aux [OF assms(2), of b "length b"] by (simp add: trimLeft_def)
  moreover have "trimRight [] = []" by (simp add: trimRight_def)
  ultimately have "trimRight (trimLeft (b @ ws2)) = trimRight (trimLeft b)"
    using trimRight_ascii_suffix [OF assms(2)] by auto
  then show ?thesis
    by (simp add: TrimSpace_def trimLeft_ascii_prefix [OF assms(1)])
qed

lemma spaceWidth_Nil: "\<forall>w \<in> set W. w \<noteq> [] \<Longrightarrow> spaceWidth W [] = 0"
proof -
  assume a: "\<forall>w \<in> set W. w \<noteq> []"
  have "\<not> startsWith [] w" if "w \<in> set W" for w
    using a that by (cases w) auto
  then have "List.find (startsWith []) W = None"
    by (simp add: find_None_iff)
  then show ?thesis by (simp add: spaceWidth_def)
qed

lemma dropSpaces_done:
  assumes "\<forall>w \<in> set W. w \<noteq> []"
  shows "length s \<le> n \<Longrightarrow> spaceWidth W (dropSpaces W n s) = 0"
proof (induction n arbitrary: s)
  case 0
  then show ?case by (simp add: spaceWidth_Nil [OF assms])
next
  case (Suc n)
  show ?case
  proof (cases "spaceWidth W s = 0")
    case True
    then show ?thesis by simp
  next
    case False
    then have "length (drop (spaceWidth W s) s) \<le> n"
      using Suc.prems by simp
    from Suc.IH [OF this] False show ?thesis by simp
  qed
qed

lemma dropSpaces_suffix: "\<exists>k. dropSpaces W n s = drop k s"
proof (induction n arbitrary: s)
  case 0
  show ?case by (rule exI [of _ 0]) simp
next
  case (Suc n)
  show ?case
  proof (cases "spaceWidth W s = 0")
    case True
    then show ?thesis by (intro exI [of _ 0]) simp
  next
    case False
    from Suc.IH [of "drop (spaceWidth W s) s"]
    obtain k where "dropSpaces W n (drop (spaceWidth W s) s) = drop k (drop (spaceWidth W s) s)"
      by blast
    with False show ?thesis
      by (intro exI [of _ "spaceWidth W s + k"]) (simp add: add.commute)
  qed
qed

lemma startsWith_take: "startsWith (take m s) w \<Longrightarrow> startsWith s w"
proof (induction s w arbitrary: m rule: startsWith.induct)
  case (1 s)
  then show ?case by simp
next
  case (2 c w)
  then show ?case by simp
next
  case (3 d s c w)
  then show ?case by (cases m) auto
qed

lemma spaceWidth_take:
  assumes "spaceWidth W s = 0" "\<forall>w \<in> set W. w \<noteq> []"
  shows "spaceWidth W (take m s) = 0"
proof -
  have none: "\<not> startsWith s w" if "w \<in> set W" for w
  proof
    assume sw: "startsWith s w"
    with that have "List.find (startsWith s) W \<noteq> None"
      by (auto simp: find_None_iff)
    then obtain w' where f: "List.find (startsWith s) W = Some w'"
      by auto
    then have "w' \<in> set W" by (auto simp: find_Some_iff)
    with assms(2) have "length w' \<noteq> 0" by simp
    with f assms(1) show False by (simp add: spaceWidth_def)
  qed
  then have "\<not> startsWith (take m s) w" if "w \<in> set W" for w
    using that startsWith_take by blast
  then have "List.find (startsWith (take m s)) W = None"
    by (simp add: find_None_iff)
  then show ?thesis by (simp add: spaceWidth_def)
qed

lemma spaceRunes_nonempty:
  "\<forall>w \<in> set spaceRunes. w \<noteq> []" "\<forall>w \<in> set (map rev spaceRunes). w \<noteq> []"
  by (simp_all add: spaceRunes_def asciiSpace_def unicodeSpace_def)

lemma TrimSpace_trimmed:
  "spaceWidth spaceRunes (TrimSpace s) = 0 \<and>
   spaceWidth (map rev spaceRunes) (rev (TrimSpace s)) = 0"
proof -
  have left: "spaceWidth spaceRunes (trimLeft s) = 0"
    unfolding trimLeft_def by (rule dropSpaces_done [OF spaceRunes_nonempty(1)]) simp
  have right: "spaceWidth (map rev spaceRunes) (rev (trimRight t)) = 0" for t
    unfolding trimRight_def rev_rev_ident
    by (rule dropSpaces_done [OF spaceRunes_nonempty(2)]) simp
  obtain k where "dropSpaces (map rev spaceRunes) (length (trimLeft s)) (rev (trimLeft s)) =
      drop k (rev (trimLeft s))"
    using dropSpaces_suffix by blast
  then have "trimRight (trimLeft s) = take (length (trimLeft s) - k) (trimLeft s)"
    by (simp add: trimRight_def rev_drop)
  then have "spaceWidth spaceRunes (trimRight (trimLeft s)) = 0"
    using spaceWidth_take [OF left spaceRunes_nonempty(1)] by simp
  with right show ?thesis by (simp add: TrimSpace_def)
qed

lemma TrimSpace_example: "TrimSpace ''[1]'' = ''[1]''" "TrimSpace ''[1, 2]'' = ''[1, 2]''"
  by (simp_all add: TrimSpace_def trimLeft_def trimRight_def spaceWidth_def spaceRunes_def
        asciiSpace_def unicodeSpace_def)

lemma startsWith_split: "startsWith s w \<Longrightarrow> s = w @ drop (length w) s"
  by (induction s w rule: startsWith.induct) auto

lemma spaceWidth_split:
  assumes "spaceWidth W s \<noteq> 0"
  shows "\<exists>w \<in> set W. s = w @ drop (spaceWidth W s) s"
proof -
  from assms obtain w where f: "List.find (startsWith s) W = Some w"
    and l: "spaceWidth W s = length w"
    by (auto simp: spaceWidth_def split: option.splits)
  from f have "w \<in> set W" "startsWith s w"
    by (auto simp: find_Some_iff)
  with l startsWith_split [of s w] show ?thesis
    by auto
qed

lemma dropSpaces_concat: "\<exists>ps. set ps \<subseteq> set W \<and> s = concat ps @ dropSpaces W n s"
proof (induction n arbitrary: s)
  case 0
  show ?case by (rule exI [of _ "[]"]) simp
next
  case (Suc n)
  show ?case
  proof (cases "spaceWidth W s = 0")
    case True
    then show ?thesis by (intro exI [of _ "[]"]) simp
  next
    case False
    from spaceWidth_split [OF False] obtain w where
      w: "w \<in> set W" "s = w @ drop (spaceWidth W s) s"
      by blast
    from Suc.IH [of "drop (spaceWidth W s) s"] obtain ps where
      ps: "set ps \<subseteq> set W"
        "drop (spaceWidth W s) s = concat ps @ dropSpaces W n (drop (spaceWidth W s) s)"
      by blast
    have "s = concat (w # ps) @ dropSpaces W (Suc n) s"
      using w(2) ps(2) False by simp
    with w(1) ps(1) show ?thesis
      by (intro exI [of _ "w # ps"]) simp
  qed
qed

lemma TrimSpace_cuts_spaces:
  "\<exists>ps ss. set ps \<subseteq> set spaceRunes \<and> set ss \<subseteq> set spaceRunes \<and>
     s = concat ps @ TrimSpace s @ concat ss"
proof -
  define t where "t = trimLeft s"
  from dropSpaces_concat [of spaceRunes s "length s"] obtain ps where
    ps: "set ps \<subseteq> set spaceRunes" "s = concat ps @ t"
    unfolding t_def trimLeft_def by blast
  from dropSpaces_concat [of "map rev spaceRunes" "rev t" "length t"] obtain rs where
    rs: "set rs \<subseteq> set (map rev spaceRunes)"
      "rev t = concat rs @ dropSpaces (map rev spaceRunes) (length t) (rev t)"
    by blast
  define ss where "ss = map rev (rev rs)"
  have "set ss \<subseteq> set spaceRunes"
    using rs(1) by (auto simp: ss_def)
  moreover have "t = trimRight t @ concat ss"
  proof -
    have "t = rev (rev t)" by simp
    also have "\<dots> = rev (concat rs @ dropSpaces (map rev spaceRunes) (length t) (rev t))"
      using rs(2) by simp
    also have "\<dots> = trimRight t @ concat ss"
      by (simp add: trimRight_def ss_def rev_concat)
    finally show ?thesis .
  qed
  moreover have "TrimSpace s = trimRight t"
    by (simp add: TrimSpace_def t_def)
  ultimately have "set ss \<subseteq> set spaceRunes" "s = concat ps @ TrimSpace s @ concat ss"
    using ps(2) by simp_all
  with ps(1) show ?thesis
    by blast
qed




subsection \<open>parseMessage\<close>



lemma parseMessage_TrimSpace:
  "TrimSpace m1 = TrimSpace m2 \<Longrightarrow> parseMessage H m1 isND st = parseMessage H m2 isND st"
  by (simp add: parseMessage_def prepareMessage_def)

lemma initialize_Message: "Message (snd (initialize H n st)) = Message (snd st)"
  by (cases st) (simp add: initialize_def Let_def split_beta)


lemma prepareMessage_Message:
  "Message (snd (prepareMessage H msg isND st)) = TrimSpace msg"
  by (cases st) (simp add: prepareMessage_def Let_def split_beta initialize_Message)



lemma Message_withQueue: "Message (withQueue pj q) = Message pj"
  by (simp add: withQueue_def)





subsection \<open>Parse\<close>

lemma parseMessage_result_Message:
  assumes "\<forall>pj. Message (snd (findStructuralIndices H pj)) = Message pj"
    and "\<forall>pj. Message (snd (unifiedMachine H pj)) = Message pj"
    and "parseMessage H msg isND st = Some (err, heap', pj')"
  shows "Message pj' = TrimSpace msg"
proof -
  obtain heap pj where p: "prepareMessage H msg isND st = (heap, pj)"
    by (cases "prepareMessage H msg isND st") auto
  obtain ok1 pj1 where s1: "findStructuralIndices H pj = (ok1, pj1)"
    by (cases "findStructuralIndices H pj") auto
  obtain ok2 fin pj2 where s2: "unifiedMachine H pj1 = ((ok2, fin), pj2)"
    by (cases "unifiedMachine H pj1") auto
  have m0: "Message pj = TrimSpace msg"
    using prepareMessage_Message [of H msg isND st] p by simp
  have m1: "Message pj1 = Message pj"
    using assms(1) [rule_format, of pj] s1 by simp
  have m2: "Message pj2 = Message pj1"
    using assms(2) [rule_format, of pj1] s2 by simp
  from assms(3) have "Message pj' = Message pj1 \<or> Message pj' = Message pj2"
    by (auto simp: parseMessage_def p s1 s2 Let_def Message_withQueue
             split: if_splits option.splits)
  with m0 m1 m2 show ?thesis by auto
qed

text \<open>
  C9. Parse, the entry point for a plain document, hands the input to parseMessage, which
  trims it with TrimSpace before anything else: the state the stages work on has the trimmed
  bytes as its Message. The trimmed bytes are the input without a run of spaces at its
  front and a run of spaces at its end (every byte between them is kept, in place), and
  they begin and end with no space. A successful result keeps them (the stages do not write
  the Message), and parsing an input surrounded by extra whitespace is parsing the input.
\<close>

theorem Parse_trims_whitespace:
  assumes "set ws1 \<subseteq> set asciiSpace" and "set ws2 \<subseteq> set asciiSpace"
  shows "Parse H (ws1 @ b @ ws2) reuse opts heap = Parse H b reuse opts heap \<and>
    (\<forall>st. Message (snd (prepareMessage H b False st)) = TrimSpace b) \<and>
    (\<exists>ps ss. set ps \<subseteq> set spaceRunes \<and> set ss \<subseteq> set spaceRunes \<and>
       b = concat ps @ TrimSpace b @ concat ss) \<and>
    spaceWidth spaceRunes (TrimSpace b) = 0 \<and>
    spaceWidth (map rev spaceRunes) (rev (TrimSpace b)) = 0 \<and>
    ((\<forall>pj. Message (snd (findStructuralIndices H pj)) = Message pj) \<and>
     (\<forall>pj. Message (snd (unifiedMachine H pj)) = Message pj) \<longrightarrow>
     (\<forall>heap' pj'. Parse H b reuse opts heap = Some (Inr (heap', pj')) \<longrightarrow>
        Message pj' = TrimSpace b))"
proof (intro conjI allI impI)
  have "parseMessage H (ws1 @ b @ ws2) False st = parseMessage H b False st" for st
    by (rule parseMessage_TrimSpace [OF TrimSpace_surrounded [OF assms]])
  then show "Parse H (ws1 @ b @ ws2) reuse opts heap = Parse H b reuse opts heap"
    by (simp add: Parse_def split: sum.splits)
next
  fix st show "Message (snd (prepareMessage H b False st)) = TrimSpace b"
    by (rule prepareMessage_Message)
next
  show "\<exists>ps ss. set ps \<subseteq> set spaceRunes \<and> set ss \<subseteq> set spaceRunes \<and>
       b = concat ps @ TrimSpace b @ concat ss"
    by (rule TrimSpace_cuts_spaces)
next
  show "spaceWidth spaceRunes (TrimSpace b) = 0"
    using TrimSpace_trimmed [of b] by simp
next
  show "spaceWidth (map rev spaceRunes) (rev (TrimSpace b)) = 0"
    using TrimSpace_trimmed [of b] by simp
next
  fix heap' pj'
  assume stages: "(\<forall>pj. Message (snd (findStructuralIndices H pj)) = Message pj) \<and>
     (\<forall>pj. Message (snd (unifiedMachine H pj)) = Message pj)"
    and res: "Parse H b reuse opts heap = Some (Inr (heap', pj'))"
  from res obtain pj0 where "parseMessage H b False (heap, pj0) = Some (None, heap', pj')"
    by (auto simp: Parse_def split: sum.splits option.splits)
  with stages show "Message pj' = TrimSpace b"
    using parseMessage_result_Message by blast
qed


lemma idleHost_simps:
  "SupportedCPU idleHost"
  "findStructuralIndices idleHost pj = (True, pj)"
  "unifiedMachine idleHost pj = ((True, True), pj)"
  by (simp_all add: idleHost_def)

theorem Parse_trims_whitespace_witness:
  "Parse idleHost ('' '' @ ''[1, 2]'' @ [CHR 0x0A]) None [] 0 = Parse idleHost ''[1, 2]'' None [] 0 \<and>
   (\<exists>heap' pj'. Parse idleHost ('' '' @ ''[1, 2]'' @ [CHR 0x0A]) None [] 0 = Some (Inr (heap', pj')) \<and>
      Message pj' = ''[1, 2]'') \<and>
   TrimSpace ('' '' @ ''[1, 2]'' @ [CHR 0x0A]) = ''[1, 2]''"
proof -
  have a: "set '' '' \<subseteq> set asciiSpace" and b: "set [CHR 0x0A] \<subseteq> set asciiSpace"
    by (simp_all add: asciiSpace_def)
  have stages: "(\<forall>pj. Message (snd (findStructuralIndices idleHost pj)) = Message pj) \<and>
     (\<forall>pj. Message (snd (unifiedMachine idleHost pj)) = Message pj)"
    by (simp add: idleHost_simps)
  let ?pj0 = "zeroInternalParsedJson\<lparr>copyStrings := True\<rparr>"
  obtain heap' pj' where p: "prepareMessage idleHost ''[1, 2]'' False (0, ?pj0) = (heap', pj')"
    by (cases "prepareMessage idleHost ''[1, 2]'' False (0, ?pj0)") auto
  have msg: "Message pj' = ''[1, 2]''"
    using prepareMessage_Message [of idleHost "''[1, 2]''" False "(0, ?pj0)"] p
    by (simp add: TrimSpace_example)
  have new: "newInternalParsedJson idleHost None [] = Inr ?pj0"
    by (simp add: newInternalParsedJson_def idleHost_simps)
  have pm: "parseMessage idleHost ''[1, 2]'' False (0, ?pj0) = Some (None, heap', pj')"
    by (simp add: parseMessage_def p msg idleHost_simps)
  have res: "Parse idleHost ''[1, 2]'' None [] 0 = Some (Inr (heap', pj'))"
    by (simp add: Parse_def new pm)
  note T = Parse_trims_whitespace [OF a b, of idleHost "''[1, 2]''" None "[]" 0]
  from T have eq: "Parse idleHost ('' '' @ ''[1, 2]'' @ [CHR 0x0A]) None [] 0 =
      Parse idleHost ''[1, 2]'' None [] 0"
    by (rule conjunct1)
  from T stages res have "Message pj' = TrimSpace ''[1, 2]''"
    by blast
  then have m: "Message pj' = ''[1, 2]''"
    by (simp add: TrimSpace_example)
  have t: "TrimSpace ('' '' @ ''[1, 2]'' @ [CHR 0x0A]) = ''[1, 2]''"
    by (simp add: TrimSpace_def trimLeft_def trimRight_def spaceWidth_def spaceRunes_def
          asciiSpace_def unicodeSpace_def)
  from eq res m t show ?thesis
    by simp
qed

subsection \<open>The capability check\<close>

text \<open>
  C2. On a host without the required features every entry point fails with the error
  \<open>Host CPU does not meet target specs\<close> whatever the input, the reusable result and the
  options are: newInternalParsedJson answers before anything else is looked at, and
  ParseNDStream leaves its source as it was and sends the error as the only item on the
  output queue, which it then closes (a consumer that receives is all this takes).
\<close>

theorem unsupported_host_fails_first:
  assumes "\<not> SupportedCPU H"
  shows "Parse H b reuse opts heap = Some (Inl errHost) \<and>
    ParseND H b reuse opts heap = Some (Inl errHost) \<and>
    newInternalParsedJson H reuse opts = Inl errHost \<and>
    (consumer 0 \<noteq> NeverReceives \<longrightarrow>
       ParseNDStream H r consumer reuseCh heap =
         ([Send \<lparr>Value = None, Error = Some errHost\<rparr>, Close], r)) \<and>
    errHost = New ''Host CPU does not meet target specs''"
  using assms
  by (simp add: Parse_def ParseND_def newInternalParsedJson_def ParseNDStream_def errHost_def)

theorem unsupported_host_fails_first_witness:
  "Parse (idleHost\<lparr>SupportedCPU := False\<rparr>) ''[1]'' None [] 0 =
     Some (Inl (New ''Host CPU does not meet target specs'')) \<and>
   ParseND (idleHost\<lparr>SupportedCPU := False\<rparr>) ''[1]'' None [] 0 =
     Some (Inl (New ''Host CPU does not meet target specs'')) \<and>
   ParseNDStream (idleHost\<lparr>SupportedCPU := False\<rparr>) \<lparr>remaining = ''[1]'', failure = EOF\<rparr>
       eagerConsumer (\<lambda>k. None) 0 =
     ([Send \<lparr>Value = None, Error = Some (New ''Host CPU does not meet target specs'')\<rparr>, Close],
      \<lparr>remaining = ''[1]'', failure = EOF\<rparr>)"
proof -
  have a: "\<not> SupportedCPU (idleHost\<lparr>SupportedCPU := False\<rparr>)"
    by simp
  have b: "eagerConsumer 0 \<noteq> NeverReceives"
    by (simp add: eagerConsumer_def)
  from unsupported_host_fails_first [OF a, of "''[1]''" None "[]" 0 eagerConsumer
      "\<lparr>remaining = ''[1]'', failure = EOF\<rparr>" "\<lambda>k. None"] b
  show ?thesis by simp
qed

section \<open>Properties of the streaming pipeline\<close>

text \<open>
  The reader hands out what a preceding \<open>ReadBytes\<close> left in its buffer before it reads
  from the source again.
\<close>

lemma readBlock_buffered:
  "buffered b \<noteq> [] \<Longrightarrow> length (buffered b) \<le> tmpSize \<Longrightarrow>
   readBlock b = (buffered b, None, b\<lparr>buffered := []\<rparr>)"
  by (simp add: readBlock_def)

lemma sequencer_before_failure:
  assumes "\<forall>x \<in> set pre. Error x = None"
    and "\<forall>j < length pre. consumer (k + j) \<noteq> NeverReceives"
  shows "sequencer consumer k False (map Some pre @ rest) =
           map Send pre @ sequencer consumer (k + length pre) False rest"
  using assms
proof (induction pre arbitrary: k)
  case Nil
  then show ?case by simp
next
  case (Cons x pre)
  have here: "consumer k \<noteq> NeverReceives"
    using Cons.prems(2) [rule_format, of 0] by simp
  have later: "\<forall>j < length pre. consumer (Suc k + j) \<noteq> NeverReceives"
  proof (intro allI impI)
    fix j assume "j < length pre"
    then have "Suc j < length (x # pre)" by simp
    from Cons.prems(2) [rule_format, OF this] show "consumer (Suc k + j) \<noteq> NeverReceives"
      by simp
  qed
  have "sequencer consumer (Suc k) False (map Some pre @ rest) =
          map Send pre @ sequencer consumer (Suc k + length pre) False rest"
    using Cons.IH [OF _ later] Cons.prems(1) by simp
  with here Cons.prems(1) show ?case
    by (cases "consumer k") simp_all
qed

text \<open>
  On a queue that ends with its first failing item the sequencer does what is asked of
  it: the items before the failure in the order of submission, then the failure, then the
  queue is closed.
\<close>

lemma sequencer_queue_ending_in_failure:
  assumes "\<forall>x \<in> set pre. Error x = None"
    and "\<forall>k \<le> length pre. consumer k \<noteq> NeverReceives"
  shows "sequencer consumer 0 False (map Some (pre @ [f])) = map Send (pre @ [f]) @ [Close]"
proof -
  have "sequencer consumer 0 False (map Some pre @ [Some f]) =
      map Send pre @ sequencer consumer (length pre) False [Some f]"
    using sequencer_before_failure [OF assms(1), of consumer 0 "[Some f]"] assms(2) by simp
  moreover have "sequencer consumer (length pre) False [Some f] = [Send f, Close]"
    using assms(2) by (cases "consumer (length pre)") auto
  ultimately show ?thesis by simp
qed

text \<open>
  With \<open>end\<close> set the sequencer goes on through the queue: every item that the consumer is
  ready to receive at once is sent, the others are dropped, and the queue is closed at
  the end.
\<close>

lemma sequencer_after_failure:
  "sequencer consumer k True (map Some post) =
     map (Send \<circ> snd) (filter (\<lambda>p. consumer (fst p) = ReceivesNow) (enumerate k post)) @ [Close]"
  by (induction post arbitrary: k) simp_all

text \<open>
  C3, at the input where the code leaves the claim: three chunks of which the second is
  malformed, and a consumer that is receiving whenever the sequencer has an item. The
  failure of the second chunk is sent, and after it the result of the third chunk: setting
  \<open>end\<close> stops the blocking send only, the \<open>select\<close> still sends every later item that
  the consumer takes at once. The stream is to be finished once an item with an error has
  been returned.
\<close>

theorem sequencer_forwards_after_failure:
  "sequencer eagerConsumer 0 False [Some okItem, Some badItem, Some okItem] =
     [Send okItem, Send badItem, Send okItem, Close] \<and>
   Error badItem \<noteq> None \<and>
   sequencer eagerConsumer 0 False [Some okItem, Some badItem, Some okItem] \<noteq>
     [Send okItem, Send badItem, Close]"
  by (simp add: eagerConsumer_def okItem_def badItem_def)

end
